theory Spec2Isabelle
  imports
    Complex_Main
    "HOL-Library.Word"
    "HOL-Library.Log_Nat"
    "HOL-Library.Monad_Syntax"
    "HOL-Library.Multiset"
begin

section \<open>The chained hash table of hash.c\<close>

text \<open>
  A shallow embedding of \<^verbatim>\<open>src/hash.c\<close>. Platform assumptions: \<^verbatim>\<open>unsigned int\<close> has
  32 bits, \<^verbatim>\<open>unsigned long\<close> 64 bits, \<^verbatim>\<open>char\<close> is signed, \<^verbatim>\<open>float\<close> is IEEE-754 binary32
  evaluated in single precision with round-to-nearest-even, and \<^verbatim>\<open>malloc\<close> succeeds
  (the code asserts it for the bucket array and does not test it for a node).
  Keys are C strings; a key is modelled by the characters before its terminating NUL.
  A node stores the key pointer it is given, not a copy, so a key is a value here on the
  assumption that the caller leaves the characters behind a stored pointer unchanged.
  The table and key arguments are never null: the code asserts both, and the types here
  have no null table or key.
  A chain of \<^verbatim>\<open>struct association\<close> nodes linked by \<^verbatim>\<open>next\<close> is a list, head first; the
  bucket array is a list of chains. \<^verbatim>\<open>hash_free\<close> only releases memory and is not modelled.
\<close>

subsection \<open>Data model\<close>

text \<open>
  A \<^verbatim>\<open>void*\<close> value handle: the null pointer or an address. The field \<^verbatim>\<open>value\<close> of a
  node is \<open>val\<close> here, and the functions \<^verbatim>\<open>_hash_table_init\<close>, \<^verbatim>\<open>_djb_hash\<close> and
  \<^verbatim>\<open>_hash_resize\<close> lose their leading underscore.
\<close>

datatype pointer = NULL | Ptr nat

record association =
  key :: string
  val :: pointer

record hash =
  table :: "association list list"
  capacity :: "32 word"
  num_elems :: "32 word"

definition INITIAL_CAPACITY :: "32 word" where
  "INITIAL_CAPACITY = 16"

definition LOAD_FACTOR_THR :: int where
  "LOAD_FACTOR_THR = 5"

subsection \<open>Single-precision arithmetic\<close>

text \<open>
  \<open>ilog2 x\<close> is the binary exponent of a positive rational: \<open>2 powi ilog2 x \<le> x < 2 powi (ilog2 x + 1)\<close>.
  \<open>round_f32\<close> rounds a non-negative rational to the nearest number with a 24-bit
  significand, ties to the even significand. Every value that arises here lies between
  \<open>2 powi (-32)\<close> and \<open>2 ^ 32\<close>, well inside the normal range of binary32, so exponent overflow
  and subnormals do not occur.
\<close>

definition ilog2 :: "rat \<Rightarrow> int" where
  "ilog2 x = (let (p, q) = quotient_of x; e = bitlen p - bitlen q
              in if 2 powi e \<le> x then e else e - 1)"

definition round_half_even :: "rat \<Rightarrow> int" where
  "round_half_even s =
     (let m = \<lfloor>s\<rfloor>; r = s - of_int m
      in if r < 1 / 2 then m
         else if 1 / 2 < r then m + 1
         else if even m then m else m + 1)"

definition round_f32 :: "rat \<Rightarrow> rat" where
  "round_f32 x =
     (if x \<le> 0 then 0
      else let e = ilog2 x - 23
           in of_int (round_half_even (x / 2 powi e)) * 2 powi e)"

text \<open>The non-negative single-precision values: finite ones, plus infinity, and NaN.\<close>

datatype f32 = Finite rat | Infinity | NaN

text \<open>The conversions \<^verbatim>\<open>(float)u\<close> of an unsigned int and of the int constant 5.\<close>

definition f32_of_uint :: "32 word \<Rightarrow> f32" where
  "f32_of_uint w = Finite (round_f32 (of_nat (unat w)))"

definition f32_of_int :: "int \<Rightarrow> f32" where
  "f32_of_int i = Finite (round_f32 (of_int i))"

text \<open>Division and \<^verbatim>\<open>>\<close> on non-negative operands; \<open>x / 0\<close> is infinity, \<open>0 / 0\<close> is NaN.\<close>

fun f32_div :: "f32 \<Rightarrow> f32 \<Rightarrow> f32" where
  "f32_div (Finite a) (Finite b) =
     (if b = 0 then (if a = 0 then NaN else Infinity) else Finite (round_f32 (a / b)))"
| "f32_div (Finite a) Infinity = Finite 0"
| "f32_div Infinity (Finite b) = Infinity"
| "f32_div Infinity Infinity = NaN"
| "f32_div NaN y = NaN"
| "f32_div x NaN = NaN"

fun f32_gt :: "f32 \<Rightarrow> f32 \<Rightarrow> bool" where
  "f32_gt (Finite a) (Finite b) = (b < a)"
| "f32_gt Infinity (Finite b) = True"
| "f32_gt x y = False"

subsection \<open>Creation and load factor\<close>

text \<open>\<^verbatim>\<open>_hash_table_init\<close>: a zeroed array of \<open>cap\<close> chain heads, no elements.\<close>

definition hash_table_init :: "hash \<Rightarrow> 32 word \<Rightarrow> hash" where
  "hash_table_init h cap =
     h\<lparr>table := replicate (unat cap) [], capacity := cap, num_elems := 0\<rparr>"

definition hash_create :: hash where
  "hash_create =
     hash_table_init \<lparr>table = [], capacity = 0, num_elems = 0\<rparr> INITIAL_CAPACITY"

text \<open>\<^verbatim>\<open>return hash->num_elems / (float)hash->capacity;\<close>\<close>

definition hash_load_factor :: "hash \<Rightarrow> f32" where
  "hash_load_factor h = f32_div (f32_of_uint (num_elems h)) (f32_of_uint (capacity h))"

subsection \<open>The DJB hash and key comparison\<close>

text \<open>\<^verbatim>\<open>int c = *key++\<close>: a signed char widened to the 64-bit accumulator.\<close>

definition int_of_char :: "char \<Rightarrow> 64 word" where
  "int_of_char c = scast (of_char c :: 8 word)"

fun djb_loop :: "64 word \<Rightarrow> string \<Rightarrow> 64 word" where
  "djb_loop hash [] = hash"
| "djb_loop hash (c # s) = djb_loop ((push_bit 5 hash + hash) + int_of_char c) s"

text \<open>The \<^verbatim>\<open>unsigned long\<close> accumulator is truncated to \<^verbatim>\<open>unsigned int\<close> on return.\<close>

definition djb_hash :: "string \<Rightarrow> 32 word" where
  "djb_hash s = ucast (djb_loop 5381 s)"

text \<open>\<^verbatim>\<open>strcmp\<close>: zero exactly for equal strings, else the sign of the first difference.\<close>

fun strcmp :: "string \<Rightarrow> string \<Rightarrow> int" where
  "strcmp [] [] = 0"
| "strcmp [] (b # bs) = - 1"
| "strcmp (a # as) [] = 1"
| "strcmp (a # as) (b # bs) =
     (if a = b then strcmp as bs else of_char a - of_char b)"

subsection \<open>Insert, update, remove and resize\<close>

text \<open>
  The scan \<^verbatim>\<open>while (cur != NULL) { if (!strcmp(key, cur->key)) break; prev = cur; cur = cur->next; }\<close>:
  the position of the first node whose key compares equal, or \<open>None\<close> when \<^verbatim>\<open>cur\<close> ends
  as the null pointer.
\<close>

fun chain_find :: "string \<Rightarrow> association list \<Rightarrow> nat option" where
  "chain_find k [] = None"
| "chain_find k (cur # rest) =
     (if strcmp k (key cur) = 0 then Some 0 else map_option Suc (chain_find k rest))"

text \<open>
  The part of \<^verbatim>\<open>hash_insert\<close> after the bucket index is known (lines 133 to 190): scan the
  chain of bucket \<open>idx\<close>; overwrite the value of the node found, or unlink it when the value
  is \<open>NULL\<close>; put a new node at the head of the chain when none is found and the value is
  not \<open>NULL\<close>.
\<close>

definition chain_update :: "hash \<Rightarrow> nat \<Rightarrow> string \<Rightarrow> pointer \<Rightarrow> hash" where
  "chain_update h idx k v =
     (let chain = table h ! idx in
      case chain_find k chain of
        Some i \<Rightarrow>
          if v \<noteq> NULL
          then h\<lparr>table := (table h)[idx := chain[i := (chain ! i)\<lparr>val := v\<rparr>]]\<rparr>
          else h\<lparr>table := (table h)[idx := take i chain @ drop (Suc i) chain],
                 num_elems := num_elems h - 1\<rparr>
      | None \<Rightarrow>
          if v \<noteq> NULL
          then h\<lparr>table := (table h)[idx := \<lparr>key = k, val = v\<rparr> # chain],
                 num_elems := num_elems h + 1\<rparr>
          else h)"

text \<open>
  \<^verbatim>\<open>hash_insert\<close> and \<^verbatim>\<open>_hash_resize\<close> call each other. The first argument bounds how deeply
  calls of \<^verbatim>\<open>_hash_resize\<close> may nest: each call uses one unit, and a call with none left
  does not return. \<open>None\<close> also stands for the undefined behaviour of the C program: the
  remainder by a zero capacity, a read beyond the bucket array, and the overflow of the
  \<^verbatim>\<open>int\<close> loop counter of \<^verbatim>\<open>_hash_resize\<close> when the capacity is \<open>2 ^ 31\<close> or more.
  \<open>rehash_table\<close> is the \<^verbatim>\<open>for\<close> loop over the old buckets and \<open>rehash_chain\<close> the
  \<^verbatim>\<open>while\<close> loop over one old chain.
\<close>

fun hash_insert :: "nat \<Rightarrow> hash \<Rightarrow> string \<Rightarrow> pointer \<Rightarrow> hash option"
  and hash_resize :: "nat \<Rightarrow> hash \<Rightarrow> hash option"
  and rehash_table :: "nat \<Rightarrow> hash \<Rightarrow> association list list \<Rightarrow> hash option"
  and rehash_chain :: "nat \<Rightarrow> hash \<Rightarrow> association list \<Rightarrow> hash option"
where
  "hash_insert d h k v =
     do {
       h1 \<leftarrow> (if f32_gt (hash_load_factor h) (f32_of_int LOAD_FACTOR_THR)
              then hash_resize d h else Some h);
       if capacity h1 = 0 then None
       else
         let hashval = djb_hash k;
             idx = unat (hashval mod capacity h1)
         in if length (table h1) \<le> idx then None
            else Some (chain_update h1 idx k v)
     }"
| "hash_resize 0 h = None"
| "hash_resize (Suc d) h =
     (let old_table = table h;
          old_capacity = capacity h
      in if length old_table < unat old_capacity \<or> 2 ^ 31 \<le> unat old_capacity then None
         else rehash_table d (hash_table_init h (old_capacity * 2))
                (take (unat old_capacity) old_table))"
| "rehash_table d h [] = Some h"
| "rehash_table d h (cur # rest) =
     do { h1 \<leftarrow> rehash_chain d h cur; rehash_table d h1 rest }"
| "rehash_chain d h [] = Some h"
| "rehash_chain d h (cur # next) =
     do { h1 \<leftarrow> hash_insert d h (key cur) (val cur); rehash_chain d h1 next }"

subsection \<open>Lookup\<close>

fun chain_get :: "string \<Rightarrow> association list \<Rightarrow> pointer" where
  "chain_get k [] = NULL"
| "chain_get k (cur # rest) =
     (if strcmp k (key cur) = 0 then val cur else chain_get k rest)"

text \<open>
  \<^verbatim>\<open>hash_get\<close> returns the value found together with the table it leaves behind, so that
  what it does to the table can be stated.
\<close>

definition hash_get :: "hash \<Rightarrow> string \<Rightarrow> (pointer \<times> hash) option" where
  "hash_get h k =
     (if capacity h = 0 then None
      else
        let hashval = djb_hash k;
            idx = unat (hashval mod capacity h)
        in if length (table h) \<le> idx then None
           else Some (chain_get k (table h ! idx), h))"

subsection \<open>Driving the table, its abstraction and its invariant\<close>

text \<open>A sequence of \<^verbatim>\<open>hash_insert\<close> calls, as a caller or a test would make them.\<close>

fun hash_insert_all :: "nat \<Rightarrow> hash \<Rightarrow> (string \<times> pointer) list \<Rightarrow> hash option" where
  "hash_insert_all d h [] = Some h"
| "hash_insert_all d h ((k, v) # kvs) =
     do { h1 \<leftarrow> hash_insert d h k v; hash_insert_all d h1 kvs }"

text \<open>
  The tables that a program can reach: a fresh table, and whatever a returning call of
  \<^verbatim>\<open>hash_insert\<close> or \<^verbatim>\<open>hash_get\<close> leaves behind.
\<close>

inductive reachable :: "hash \<Rightarrow> bool" where
  create: "reachable hash_create"
| insert: "reachable h \<Longrightarrow> hash_insert d h k v = Some h' \<Longrightarrow> reachable h'"
| get: "reachable h \<Longrightarrow> hash_get h k = Some (v, h') \<Longrightarrow> reachable h'"

text \<open>The comparison \<^verbatim>\<open>hash_load_factor(hash) > LOAD_FACTOR_THR\<close> of \<^verbatim>\<open>hash_insert\<close>.\<close>

abbreviation load_exceeds :: "hash \<Rightarrow> bool" where
  "load_exceeds h \<equiv> f32_gt (hash_load_factor h) (f32_of_int LOAD_FACTOR_THR)"

text \<open>
  The first statement of \<^verbatim>\<open>hash_insert\<close>, the growth step: the table on which the chain
  scan then runs.
\<close>

definition grow :: "nat \<Rightarrow> hash \<Rightarrow> hash option" where
  "grow d h = (if load_exceeds h then hash_resize d h else Some h)"

text \<open>All association nodes of a table, bucket by bucket.\<close>

definition nodes :: "hash \<Rightarrow> association list" where
  "nodes h = concat (table h)"

text \<open>The bucket index \<^verbatim>\<open>_djb_hash(key) % capacity\<close> and the value its chain gives for a key.\<close>

definition bucket_of :: "32 word \<Rightarrow> string \<Rightarrow> nat" where
  "bucket_of cap k = unat (djb_hash k mod cap)"

definition lookup :: "hash \<Rightarrow> string \<Rightarrow> pointer" where
  "lookup h k = chain_get k (table h ! bucket_of (capacity h) k)"

text \<open>
  The invariant of reachable tables: the capacity is a power of two from 16 to \<open>2 ^ 30\<close> and
  is the length of the bucket array; every node sits in the bucket of its key and holds a
  value other than \<open>NULL\<close>; no key occurs twice; \<open>num_elems\<close> is the number of nodes
  (modulo \<open>2 ^ 32\<close>); and below the largest capacity the table holds at most six nodes per
  bucket on average.
\<close>

definition table_inv :: "hash \<Rightarrow> bool" where
  "table_inv h \<longleftrightarrow>
     (\<exists>j. 4 \<le> j \<and> j \<le> 30 \<and> unat (capacity h) = 2 ^ j) \<and>
     length (table h) = unat (capacity h) \<and>
     (\<forall>i < length (table h). \<forall>a \<in> set (table h ! i).
        bucket_of (capacity h) (key a) = i \<and> val a \<noteq> NULL) \<and>
     distinct (map key (nodes h)) \<and>
     num_elems h = of_nat (length (nodes h)) \<and>
     (unat (capacity h) < 2 ^ 30 \<longrightarrow> length (nodes h) \<le> 6 * unat (capacity h))"

text \<open>The non-negative rationals that binary32 represents exactly (exponent range aside).\<close>

definition is_f32 :: "rat \<Rightarrow> bool" where
  "is_f32 x \<longleftrightarrow> (\<exists>(m::nat) (e::int). m < 2 ^ 24 \<and> x = of_nat m * 2 powi e)"

text \<open>The chain that \<open>chain_update\<close> leaves in the bucket it works on.\<close>

definition upd_chain :: "association list \<Rightarrow> string \<Rightarrow> pointer \<Rightarrow> association list" where
  "upd_chain c k v =
     (case chain_find k c of
        Some i \<Rightarrow> if v \<noteq> NULL then c[i := (c ! i)\<lparr>val := v\<rparr>] else take i c @ drop (Suc i) c
      | None \<Rightarrow> if v \<noteq> NULL then \<lparr>key = k, val = v\<rparr> # c else c)"

text \<open>
  What an upsert of \<open>k\<close> with \<open>v\<close> makes of a list of nodes with distinct keys, up to
  order: the node of \<open>k\<close> goes, and a node with \<open>v\<close> comes unless \<open>v\<close> is \<open>NULL\<close>.
\<close>

definition upsert_nodes :: "association list \<Rightarrow> string \<Rightarrow> pointer \<Rightarrow> association list" where
  "upsert_nodes xs k v =
     (if v = NULL then [] else [\<lparr>key = k, val = v\<rparr>]) @ filter (\<lambda>a. key a \<noteq> k) xs"

text \<open>A table holding the single key \<open>''a''\<close>, reached by one insert into a fresh table.\<close>

definition table_a :: hash where
  "table_a =
     \<lparr>table = [[], [], [], [], [], [], [\<lparr>key = ''a'', val = Ptr 1\<rparr>], [], [], [], [],
                [], [], [], [], []],
      capacity = 16, num_elems = 1\<rparr>"

text \<open>
  Distinct one-character keys with values other than \<open>NULL\<close>, and the table that inserting
  the first \<open>n\<close> of them into a fresh table gives: 80 of them fill the 16 buckets to
  exactly five per bucket on average, and 200 of them force the table to grow.
\<close>

definition keys_upto :: "nat \<Rightarrow> (string \<times> pointer) list" where
  "keys_upto n = map (\<lambda>i. ([char_of i], Ptr i)) [1..<Suc n]"

definition filled :: "nat \<Rightarrow> hash" where
  "filled n = the (hash_insert_all (Suc 0) hash_create (keys_upto n))"

section \<open>Single-precision rounding\<close>

lemma two_powi_less_iff: "(2::rat) powi a < 2 powi b \<longleftrightarrow> a < b"
proof
  assume "(2::rat) powi a < 2 powi b"
  show "a < b"
  proof (rule ccontr)
    assume "\<not> a < b"
    then have "(2::rat) powi b \<le> 2 powi a" by (intro power_int_increasing) auto
    with \<open>(2::rat) powi a < 2 powi b\<close> show False by simp
  qed
next
  assume "a < b"
  then show "(2::rat) powi a < 2 powi b" by (intro power_int_strict_increasing) auto
qed

lemma two_powi_le_iff: "(2::rat) powi a \<le> 2 powi b \<longleftrightarrow> a \<le> b"
  using two_powi_less_iff[of b a] by (auto simp: not_less[symmetric])

lemma bitlen_rat_bounds:
  assumes "0 < (p::int)"
  shows "(2::rat) powi (bitlen p - 1) \<le> of_int p" and "of_int p < (2::rat) powi (bitlen p)"
proof -
  have b: "0 < bitlen p" using assms bitlen_eq_zero_iff[of p] bitlen_nonneg[of p] by linarith
  from bitlen_bounds[OF assms] have l: "2 ^ nat (bitlen p - 1) \<le> p" and u: "p < 2 ^ nat (bitlen p)"
    by auto
  have "(2::rat) powi (bitlen p - 1) = of_int (2 ^ nat (bitlen p - 1))"
    using b by (simp add: power_int_def)
  also have "\<dots> \<le> of_int p" using l by (simp only: of_int_le_iff)
  finally show "(2::rat) powi (bitlen p - 1) \<le> of_int p" .
  have "(of_int p :: rat) < of_int (2 ^ nat (bitlen p))" using u by (simp only: of_int_less_iff)
  also have "\<dots> = 2 powi (bitlen p)" using b by (simp add: power_int_def)
  finally show "of_int p < (2::rat) powi (bitlen p)" .
qed

lemma ilog2_bounds:
  assumes "0 < x"
  shows "2 powi (ilog2 x) \<le> x" and "x < 2 powi (ilog2 x + 1)"
proof -
  obtain p q where pq: "quotient_of x = (p, q)" by (cases "quotient_of x")
  have q: "0 < q" using pq by (rule quotient_of_denom_pos)
  have x: "x = of_int p / of_int q" using pq by (rule quotient_of_div)
  have p: "0 < p" using assms q x by (simp add: zero_less_divide_iff)
  define e where "e = bitlen p - bitlen q"
  have il: "ilog2 x = (if 2 powi e \<le> x then e else e - 1)"
    by (simp add: ilog2_def pq e_def Let_def)
  note bp = bitlen_rat_bounds[OF p] and bq = bitlen_rat_bounds[OF q]
  have qq: "(0::rat) < of_int q" using q by simp
  have up: "x < 2 powi (e + 1)"
  proof -
    have "x * of_int q = of_int p" using qq x by simp
    also have "\<dots> < (2::rat) powi (bitlen p)" by (rule bp)
    also have "\<dots> = 2 powi (e + 1) * 2 powi (bitlen q - 1)"
      by (simp add: e_def flip: power_int_add)
    also have "\<dots> \<le> 2 powi (e + 1) * of_int q"
      using bq(1) by (simp add: mult_left_mono)
    finally show ?thesis using qq by simp
  qed
  have lo: "2 powi (e - 1) \<le> x"
  proof -
    have "(2::rat) powi (e - 1) * of_int q \<le> 2 powi (e - 1) * 2 powi (bitlen q)"
      using bq(2) by (simp add: mult_left_mono)
    also have "\<dots> = 2 powi (bitlen p - 1)"
      by (simp add: e_def flip: power_int_add)
    also have "\<dots> \<le> of_int p" by (rule bp)
    also have "\<dots> = x * of_int q" using qq x by simp
    finally show ?thesis using qq by simp
  qed
  show "2 powi (ilog2 x) \<le> x" using lo by (simp add: il)
  show "x < 2 powi (ilog2 x + 1)" using up by (auto simp add: il not_le)
qed

lemma ilog2_unique:
  assumes "(2::rat) powi e \<le> x" "x < 2 powi (e + 1)"
  shows "ilog2 x = e"
proof -
  have x: "0 < x" using assms(1) by (rule less_le_trans[rotated]) simp
  note b = ilog2_bounds[OF x]
  have "(2::rat) powi e < 2 powi (ilog2 x + 1)" using assms(1) b(2) by simp
  then have 1: "e < ilog2 x + 1" by (simp only: two_powi_less_iff)
  have "(2::rat) powi (ilog2 x) < 2 powi (e + 1)" using assms(2) b(1) by simp
  then have 2: "ilog2 x < e + 1" by (simp only: two_powi_less_iff)
  show ?thesis using 1 2 by simp
qed

lemma round_half_even_of_int: "round_half_even (of_int k) = k"
  by (simp add: round_half_even_def)

lemma round_half_even_ge_floor: "\<lfloor>s\<rfloor> \<le> round_half_even s"
  by (simp add: round_half_even_def Let_def)

lemma round_half_even_le: "s \<le> of_int k \<Longrightarrow> round_half_even s \<le> k"
proof -
  assume a: "s \<le> of_int k"
  show ?thesis
  proof (cases "s = of_int k")
    case True
    then show ?thesis by (simp add: round_half_even_of_int)
  next
    case False
    then have "s < of_int k" using a by simp
    then have "\<lfloor>s\<rfloor> < k" by (simp add: floor_less_iff)
    then show ?thesis by (simp add: round_half_even_def Let_def)
  qed
qed

lemma round_half_even_ge: "of_int k \<le> s \<Longrightarrow> k \<le> round_half_even s"
proof -
  assume "of_int k \<le> s"
  then have "k \<le> \<lfloor>s\<rfloor>" by (simp add: le_floor_iff)
  then show ?thesis using round_half_even_ge_floor[of s] by linarith
qed

lemma scale_mono: "a \<le> b \<Longrightarrow> of_int a * (2::rat) powi e \<le> of_int b * 2 powi e"
proof -
  assume "a \<le> b"
  then have "(of_int a :: rat) \<le> of_int b" by (simp only: of_int_le_iff)
  moreover have "(0::rat) \<le> 2 powi e" by simp
  ultimately show ?thesis by (rule mult_right_mono)
qed

lemma pow_powi: "(2::rat) ^ n * 2 powi e = 2 powi (int n + e)"
  by (simp add: power_int_add)

lemma round_half_even_mono: "s \<le> t \<Longrightarrow> round_half_even s \<le> round_half_even t"
proof -
  assume st: "s \<le> t"
  then have fl: "\<lfloor>s\<rfloor> \<le> \<lfloor>t\<rfloor>" by (rule floor_mono)
  show ?thesis
  proof (cases "\<lfloor>s\<rfloor> = \<lfloor>t\<rfloor>")
    case True
    then show ?thesis using st by (auto simp add: round_half_even_def Let_def)
  next
    case False
    then have "\<lfloor>s\<rfloor> + 1 \<le> \<lfloor>t\<rfloor>" using fl by simp
    moreover have "round_half_even s \<le> \<lfloor>s\<rfloor> + 1" by (simp add: round_half_even_def Let_def)
    ultimately show ?thesis using round_half_even_ge_floor[of t] by linarith
  qed
qed

lemma is_f32_nonneg: "is_f32 f \<Longrightarrow> 0 \<le> f"
  by (auto simp: is_f32_def)

lemma scaled_bounds:
  assumes "0 < x"
  shows "2 ^ 23 \<le> x / 2 powi (ilog2 x - 23)" and "x / 2 powi (ilog2 x - 23) < 2 ^ 24"
proof -
  have p: "(0::rat) < 2 powi (ilog2 x - 23)" by simp
  have "(2::rat) ^ 23 * 2 powi (ilog2 x - 23) = 2 powi (ilog2 x)" by (simp only: pow_powi) simp
  also have "\<dots> \<le> x" using ilog2_bounds(1)[OF assms] .
  finally show "2 ^ 23 \<le> x / 2 powi (ilog2 x - 23)" using p by (simp add: le_divide_eq)
  have "x < 2 powi (ilog2 x + 1)" using ilog2_bounds(2)[OF assms] .
  also have "\<dots> = (2::rat) ^ 24 * 2 powi (ilog2 x - 23)"
    by (simp only: pow_powi) (simp add: add.commute)
  finally show "x / 2 powi (ilog2 x - 23) < 2 ^ 24" using p by (simp add: divide_less_eq)
qed

lemma f32_multiple_of_ulp:
  assumes f: "is_f32 f" and ge: "2 powi E \<le> f"
  shows "\<exists>k::int. f = of_int k * 2 powi (E - 23)"
proof -
  from f obtain m :: nat and e :: int where m: "m < 2 ^ 24" and fe: "f = of_nat m * 2 powi e"
    by (auto simp: is_f32_def)
  have "(2::rat) powi E \<le> of_nat m * 2 powi e" using ge fe by simp
  also have "\<dots> < 2 ^ 24 * 2 powi e"
  proof -
    have "(of_nat m :: rat) < of_nat (2 ^ 24)" using m by (simp only: of_nat_less_iff)
    then show ?thesis by (simp add: mult_strict_right_mono)
  qed
  also have "\<dots> = 2 powi (24 + e)" by (simp only: pow_powi) simp
  finally have "E < 24 + e" by (simp only: two_powi_less_iff)
  then have d: "0 \<le> e - (E - 23)" by simp
  have "(2::rat) powi e = 2 powi (e - (E - 23)) * 2 powi (E - 23)"
    by (simp flip: power_int_add)
  also have "(2::rat) powi (e - (E - 23)) = of_int (2 ^ nat (e - (E - 23)))"
    using d by (simp add: power_int_def)
  finally have "f = of_int (int m * 2 ^ nat (e - (E - 23))) * 2 powi (E - 23)"
    using fe by simp
  then show ?thesis by blast
qed

lemma round_f32_le_f32:
  assumes f: "is_f32 f" and le: "x \<le> f"
  shows "round_f32 x \<le> f"
proof (cases "0 < x")
  case False
  then show ?thesis using is_f32_nonneg[OF f] by (simp add: round_f32_def)
next
  case True
  define e where "e = ilog2 x - 23"
  have "2 powi (ilog2 x) \<le> f" using ilog2_bounds(1)[OF True] le by simp
  from f32_multiple_of_ulp[OF f this] obtain k :: int where k: "f = of_int k * 2 powi e"
    by (auto simp: e_def)
  have p: "(0::rat) < 2 powi e" by simp
  have "x / 2 powi e \<le> of_int k" using le k p by (simp add: divide_le_eq)
  then have "round_half_even (x / 2 powi e) \<le> k" by (rule round_half_even_le)
  then have "of_int (round_half_even (x / 2 powi e)) * (2::rat) powi e \<le> of_int k * 2 powi e"
    by (rule scale_mono)
  then show ?thesis using True k by (simp add: round_f32_def e_def Let_def)
qed

lemma round_f32_ge_pow:
  assumes "0 < x"
  shows "2 powi (ilog2 x) \<le> round_f32 x"
proof -
  define e where "e = ilog2 x - 23"
  define m where "m = round_half_even (x / 2 powi e)"
  have "of_int (2 ^ 23) \<le> x / 2 powi e" using scaled_bounds(1)[OF assms] by (simp add: e_def)
  then have "2 ^ 23 \<le> m" unfolding m_def by (rule round_half_even_ge)
  then have "of_int (2 ^ 23) * (2::rat) powi e \<le> of_int m * 2 powi e"
    by (rule scale_mono)
  moreover have "of_int (2 ^ 23) * 2 powi e = (2::rat) powi (ilog2 x)"
  proof -
    have "of_int (2 ^ 23) * 2 powi e = (2::rat) ^ 23 * 2 powi e" by simp
    also have "\<dots> = 2 powi (ilog2 x)" by (simp only: pow_powi e_def) simp
    finally show ?thesis .
  qed
  moreover have "round_f32 x = of_int m * 2 powi e"
    using assms by (simp add: round_f32_def e_def m_def Let_def)
  ultimately show ?thesis by (simp only:)
qed

lemma round_f32_ge_f32:
  assumes f: "is_f32 f" and le: "f \<le> x"
  shows "f \<le> round_f32 x"
proof (cases "0 < x")
  case False
  then have "f = 0" using is_f32_nonneg[OF f] le by simp
  then show ?thesis using False by (simp add: round_f32_def)
next
  case True
  define e where "e = ilog2 x - 23"
  show ?thesis
  proof (cases "2 powi (ilog2 x) \<le> f")
    case False
    then show ?thesis using round_f32_ge_pow[OF True] by simp
  next
    case ge: True
    from f32_multiple_of_ulp[OF f this] obtain k :: int where k: "f = of_int k * 2 powi e"
      by (auto simp: e_def)
    have p: "(0::rat) < 2 powi e" by simp
    have "of_int k \<le> x / 2 powi e" using le k p by (simp add: le_divide_eq)
    then have "k \<le> round_half_even (x / 2 powi e)" by (rule round_half_even_ge)
    then have "of_int k * (2::rat) powi e \<le> of_int (round_half_even (x / 2 powi e)) * 2 powi e"
      by (rule scale_mono)
    then show ?thesis using True k by (simp add: round_f32_def e_def Let_def)
  qed
qed

lemma round_f32_id: "is_f32 f \<Longrightarrow> round_f32 f = f"
  using round_f32_le_f32[of f f] round_f32_ge_f32[of f f] by simp

lemma is_f32_two_powi: "is_f32 (2 powi e)"
  unfolding is_f32_def by (rule exI[of _ 1], rule exI[of _ e]) simp

lemma round_f32_mono:
  assumes "x \<le> y"
  shows "round_f32 x \<le> round_f32 y"
proof (cases "0 < x")
  case False
  then have "round_f32 x = 0" by (simp add: round_f32_def)
  moreover have "0 \<le> round_f32 y"
  proof (cases "0 < y")
    case True
    have "(0::rat) \<le> 2 powi (ilog2 y)" by simp
    also have "\<dots> \<le> round_f32 y" by (rule round_f32_ge_pow[OF True])
    finally show ?thesis .
  next
    case False
    then show ?thesis by (simp add: round_f32_def)
  qed
  ultimately show ?thesis by simp
next
  case x: True
  then have y: "0 < y" using assms by simp
  have "2 powi (ilog2 x) \<le> x" using ilog2_bounds(1)[OF x] .
  also have "\<dots> \<le> y" by fact
  also have "\<dots> < 2 powi (ilog2 y + 1)" using ilog2_bounds(2)[OF y] .
  finally have "ilog2 x < ilog2 y + 1" by (simp only: two_powi_less_iff)
  then consider "ilog2 x = ilog2 y" | "ilog2 x + 1 \<le> ilog2 y" by linarith
  then show ?thesis
  proof cases
    case 1
    define e where "e = ilog2 x - 23"
    have p: "(0::rat) < 2 powi e" by simp
    have "x / 2 powi e \<le> y / 2 powi e" using assms p by (simp add: divide_right_mono)
    then have "round_half_even (x / 2 powi e) \<le> round_half_even (y / 2 powi e)"
      by (rule round_half_even_mono)
    then have "of_int (round_half_even (x / 2 powi e)) * (2::rat) powi e
        \<le> of_int (round_half_even (y / 2 powi e)) * 2 powi e"
      by (rule scale_mono)
    then show ?thesis using x y 1 by (simp add: round_f32_def e_def Let_def)
  next
    case 2
    have "round_f32 x \<le> 2 powi (ilog2 x + 1)"
      using ilog2_bounds(2)[OF x] by (intro round_f32_le_f32 is_f32_two_powi) simp
    also have "\<dots> \<le> 2 powi (ilog2 y)" using 2 by (simp only: two_powi_le_iff)
    also have "\<dots> \<le> round_f32 y" by (rule round_f32_ge_pow[OF y])
    finally show ?thesis .
  qed
qed

lemma is_f32_0: "is_f32 0"
  unfolding is_f32_def by (rule exI[of _ 0], rule exI[of _ 0]) simp

lemma is_f32_round: "is_f32 (round_f32 x)"
proof (cases "0 < x")
  case False
  then show ?thesis by (simp add: round_f32_def is_f32_0)
next
  case True
  define e where "e = ilog2 x - 23"
  define m where "m = round_half_even (x / 2 powi e)"
  have r: "round_f32 x = of_int m * 2 powi e"
    using True by (simp add: round_f32_def e_def m_def Let_def)
  have "of_int (2 ^ 23) \<le> x / 2 powi e" using scaled_bounds(1)[OF True] by (simp add: e_def)
  then have lo: "2 ^ 23 \<le> m" unfolding m_def by (rule round_half_even_ge)
  have "x / 2 powi e \<le> of_int (2 ^ 24)" using scaled_bounds(2)[OF True] by (simp add: e_def)
  then have hi: "m \<le> 2 ^ 24" unfolding m_def by (rule round_half_even_le)
  show ?thesis
  proof (cases "m = 2 ^ 24")
    case True
    have "round_f32 x = (2::rat) ^ 24 * 2 powi e" using r True by simp
    also have "\<dots> = 2 powi (24 + e)" by (simp only: pow_powi) simp
    finally show ?thesis by (simp only: is_f32_two_powi)
  next
    case False
    then have "nat m < 2 ^ 24" using hi lo by simp
    moreover have "round_f32 x = of_nat (nat m) * 2 powi e" using r lo by simp
    ultimately show ?thesis unfolding is_f32_def by blast
  qed
qed

lemma is_f32_small: "n < 2 ^ 24 \<Longrightarrow> is_f32 (of_nat n)"
  unfolding is_f32_def by (rule exI[of _ n], rule exI[of _ 0]) simp

lemma is_f32_scale: "is_f32 x \<Longrightarrow> is_f32 (x * 2 powi j)"
proof -
  assume "is_f32 x"
  then obtain m :: nat and e :: int where m: "m < 2 ^ 24" and x: "x = of_nat m * 2 powi e"
    by (auto simp: is_f32_def)
  have "x * 2 powi j = of_nat m * 2 powi (e + j)" using x by (simp add: power_int_add)
  then show ?thesis using m unfolding is_f32_def by blast
qed

lemma is_f32_mult_pow: "m < 2 ^ 24 \<Longrightarrow> is_f32 (of_nat (m * 2 ^ j))"
proof -
  assume "m < 2 ^ 24"
  then have "is_f32 (of_nat m * 2 powi (int j))" by (intro is_f32_scale is_f32_small)
  then show ?thesis by simp
qed

lemma is_f32_div_pow: "is_f32 x \<Longrightarrow> is_f32 (x / 2 ^ j)"
proof -
  assume "is_f32 x"
  then have "is_f32 (x * 2 powi (- int j))" by (rule is_f32_scale)
  then show ?thesis by (simp add: power_int_minus field_simps)
qed

lemma f32_of_int_thr: "f32_of_int LOAD_FACTOR_THR = Finite 5"
proof -
  have "is_f32 (of_nat 5)" by (rule is_f32_small) simp
  then have "round_f32 5 = 5" using round_f32_id[of "of_nat 5"] by simp
  then show ?thesis by (simp add: f32_of_int_def LOAD_FACTOR_THR_def)
qed

lemma hash_load_factor_pow2:
  assumes "unat (capacity h) = 2 ^ j"
  shows "hash_load_factor h = Finite (round_f32 (of_nat (unat (num_elems h))) / 2 ^ j)"
proof -
  have "is_f32 (of_nat (1 * 2 ^ j))" by (rule is_f32_mult_pow) simp
  then have c: "round_f32 (of_nat (2 ^ j)) = 2 ^ j" using round_f32_id[of "of_nat (2 ^ j)"] by simp
  have "is_f32 (round_f32 (of_nat (unat (num_elems h))) / 2 ^ j)"
    by (intro is_f32_div_pow is_f32_round)
  then have "round_f32 (round_f32 (of_nat (unat (num_elems h))) / 2 ^ j)
      = round_f32 (of_nat (unat (num_elems h))) / 2 ^ j"
    by (rule round_f32_id)
  then show ?thesis using c assms by (simp add: hash_load_factor_def f32_of_uint_def)
qed

lemma load_exceeds_pow2:
  assumes "unat (capacity h) = 2 ^ j"
  shows "load_exceeds h \<longleftrightarrow> 5 * 2 ^ j < round_f32 (of_nat (unat (num_elems h)))"
  by (simp add: hash_load_factor_pow2[OF assms] f32_of_int_thr field_simps)

lemma load_exceedsD:
  assumes c: "unat (capacity h) = 2 ^ j" and l: "load_exceeds h"
  shows "5 * unat (capacity h) < unat (num_elems h)"
proof (rule ccontr)
  assume "\<not> 5 * unat (capacity h) < unat (num_elems h)"
  then have "unat (num_elems h) \<le> 5 * 2 ^ j" using c by simp
  then have "(of_nat (unat (num_elems h)) :: rat) \<le> of_nat (5 * 2 ^ j)"
    by (simp only: of_nat_le_iff)
  moreover have "is_f32 (of_nat (5 * 2 ^ j))" by (rule is_f32_mult_pow) simp
  ultimately have "round_f32 (of_nat (unat (num_elems h))) \<le> of_nat (5 * 2 ^ j)"
    by (intro round_f32_le_f32)
  then show False using l by (simp add: load_exceeds_pow2[OF c])
qed

lemma not_load_exceedsD:
  assumes c: "unat (capacity h) = 2 ^ j" and l: "\<not> load_exceeds h"
  shows "unat (num_elems h) < 6 * unat (capacity h)"
proof (rule ccontr)
  assume "\<not> unat (num_elems h) < 6 * unat (capacity h)"
  then have "6 * 2 ^ j \<le> unat (num_elems h)" using c by simp
  then have "(of_nat (6 * 2 ^ j) :: rat) \<le> of_nat (unat (num_elems h))"
    by (simp only: of_nat_le_iff)
  moreover have "is_f32 (of_nat (6 * 2 ^ j))" by (rule is_f32_mult_pow) simp
  ultimately have "of_nat (6 * 2 ^ j) \<le> round_f32 (of_nat (unat (num_elems h)))"
    by (intro round_f32_ge_f32)
  then have "(6::rat) * 2 ^ j \<le> round_f32 (of_nat (unat (num_elems h)))" by simp
  moreover have "(5::rat) * 2 ^ j < 6 * 2 ^ j" by simp
  ultimately have "(5::rat) * 2 ^ j < round_f32 (of_nat (unat (num_elems h)))"
    by (rule less_le_trans[rotated])
  then show False using l by (simp add: load_exceeds_pow2[OF c])
qed

lemma load_exceeds_small:
  assumes c: "unat (capacity h) = 2 ^ j" and n: "unat (num_elems h) < 2 ^ 24"
  shows "load_exceeds h \<longleftrightarrow> 5 * unat (capacity h) < unat (num_elems h)"
proof -
  have "round_f32 (of_nat (unat (num_elems h))) = of_nat (unat (num_elems h))"
    using n by (intro round_f32_id is_f32_small)
  moreover have "(5 * 2 ^ j < (of_nat (unat (num_elems h)) :: rat))
      \<longleftrightarrow> ((of_nat (5 * 2 ^ j) :: rat) < of_nat (unat (num_elems h)))" by simp
  ultimately show ?thesis
    by (simp only: load_exceeds_pow2[OF c] c of_nat_less_iff)
qed

lemma load_exceeds_mono:
  assumes c: "unat (capacity h) = 2 ^ j" and c': "capacity h' = capacity h"
    and n: "unat (num_elems h) \<le> unat (num_elems h')" and l: "load_exceeds h"
  shows "load_exceeds h'"
proof -
  have "(of_nat (unat (num_elems h)) :: rat) \<le> of_nat (unat (num_elems h'))"
    using n by (simp only: of_nat_le_iff)
  then have "round_f32 (of_nat (unat (num_elems h))) \<le> round_f32 (of_nat (unat (num_elems h')))"
    by (rule round_f32_mono)
  moreover have "unat (capacity h') = 2 ^ j" using c c' by simp
  ultimately show ?thesis using l load_exceeds_pow2[OF c] load_exceeds_pow2[of h' j] by simp
qed

section \<open>Chains and the table invariant\<close>

lemma strcmp_eq_0: "strcmp a b = 0 \<longleftrightarrow> a = b"
  by (induction a b rule: strcmp.induct) auto

lemma chain_find_None: "chain_find k c = None \<longleftrightarrow> k \<notin> key ` set c"
  by (induction c) (auto simp: strcmp_eq_0)

lemma chain_find_Some:
  "chain_find k c = Some i \<Longrightarrow> i < length c \<and> key (c ! i) = k"
  by (induction c arbitrary: i) (auto simp: strcmp_eq_0 split: if_splits)

lemma chain_get_notin: "k \<notin> key ` set c \<Longrightarrow> chain_get k c = NULL"
  by (induction c) (auto simp: strcmp_eq_0)

lemma chain_get_in: "distinct (map key c) \<Longrightarrow> a \<in> set c \<Longrightarrow> chain_get (key a) c = val a"
proof (induction c)
  case Nil
  then show ?case by simp
next
  case (Cons b c)
  show ?case
  proof (cases "key a = key b")
    case True
    then have "a = b" using Cons.prems by (auto simp: image_iff)
    then show ?thesis by (simp add: strcmp_eq_0)
  next
    case False
    then show ?thesis using Cons by (auto simp: strcmp_eq_0)
  qed
qed

lemma mset_concat_update:
  "i < length t \<Longrightarrow> mset (concat (t[i := c])) + mset (t ! i) = mset (concat t) + mset c"
  by (induction t arbitrary: i) (auto split: nat.splits)

lemma mset_take_drop:
  "i < length c \<Longrightarrow> add_mset (c ! i) (mset (take i c @ drop (Suc i) c)) = mset c"
proof -
  assume "i < length c"
  then have "c = take i c @ c ! i # drop (Suc i) c" by (rule id_take_nth_drop)
  then have "mset c = mset (take i c @ c ! i # drop (Suc i) c)" by simp
  then show ?thesis by simp
qed

lemma nth_subset_concat: "i < length t \<Longrightarrow> set (t ! i) \<subseteq> set (concat t)"
proof -
  assume "i < length t"
  then have "t ! i \<in> set t" by (rule nth_mem)
  then show ?thesis by auto
qed

lemma distinct_chain:
  "distinct (map key (concat t)) \<Longrightarrow> i < length t \<Longrightarrow> distinct (map key (t ! i))"
  by (induction t arbitrary: i) (auto simp: nth_Cons split: nat.splits)

lemma in_concat_nth: "a \<in> set (concat t) \<Longrightarrow> \<exists>i < length t. a \<in> set (t ! i)"
proof -
  assume "a \<in> set (concat t)"
  then obtain c where c: "c \<in> set t" "a \<in> set c" by auto
  from c(1) obtain i where "i < length t" "t ! i = c" by (auto simp: in_set_conv_nth)
  with c(2) show ?thesis by blast
qed

lemma table_inv_cap:
  "table_inv h \<Longrightarrow> \<exists>j. 4 \<le> j \<and> j \<le> 30 \<and> unat (capacity h) = 2 ^ j"
  by (simp add: table_inv_def)

lemma table_inv_length: "table_inv h \<Longrightarrow> length (table h) = unat (capacity h)"
  by (simp add: table_inv_def)

lemma table_inv_node:
  "table_inv h \<Longrightarrow> i < length (table h) \<Longrightarrow> a \<in> set (table h ! i) \<Longrightarrow>
     bucket_of (capacity h) (key a) = i \<and> val a \<noteq> NULL"
  by (simp add: table_inv_def)

lemma table_inv_distinct: "table_inv h \<Longrightarrow> distinct (map key (nodes h))"
  by (simp add: table_inv_def)

lemma table_inv_count: "table_inv h \<Longrightarrow> num_elems h = of_nat (length (nodes h))"
  by (simp add: table_inv_def)

lemma table_inv_bound:
  "table_inv h \<Longrightarrow> unat (capacity h) < 2 ^ 30 \<Longrightarrow> length (nodes h) \<le> 6 * unat (capacity h)"
  by (simp add: table_inv_def)

lemma table_inv_cap_pos: "table_inv h \<Longrightarrow> 16 \<le> unat (capacity h)"
proof -
  assume "table_inv h"
  then obtain j where j: "4 \<le> j" "unat (capacity h) = 2 ^ j"
    using table_inv_cap by blast
  have "(2::nat) ^ 4 \<le> 2 ^ j" using j(1) by (rule power_increasing) simp
  then show ?thesis using j(2) by simp
qed

lemma table_inv_cap_nz: "table_inv h \<Longrightarrow> capacity h \<noteq> 0"
proof
  assume "table_inv h" "capacity h = 0"
  then show False using table_inv_cap_pos[of h] by simp
qed

lemma table_inv_cap_le: "table_inv h \<Longrightarrow> unat (capacity h) \<le> 2 ^ 30"
proof -
  assume "table_inv h"
  then obtain j where j: "j \<le> 30" "unat (capacity h) = 2 ^ j"
    using table_inv_cap by blast
  have "(2::nat) ^ j \<le> 2 ^ 30" using j(1) by (rule power_increasing) simp
  then show ?thesis using j(2) by simp
qed

lemma bucket_of_less: "cap \<noteq> 0 \<Longrightarrow> bucket_of cap k < unat cap"
proof -
  assume "cap \<noteq> 0"
  then have "0 < unat cap" by (simp add: unat_gt_0)
  then have "unat (djb_hash k) mod unat cap < unat cap" by (rule mod_less_divisor)
  then show ?thesis by (simp only: bucket_of_def unat_mod)
qed

lemma table_inv_bucket: "table_inv h \<Longrightarrow> bucket_of (capacity h) k < length (table h)"
  using bucket_of_less[of "capacity h" k] by (simp add: table_inv_cap_nz table_inv_length)

lemma hash_get_eq: "table_inv h \<Longrightarrow> hash_get h k = Some (lookup h k, h)"
proof -
  assume h: "table_inv h"
  have "\<not> length (table h) \<le> unat (djb_hash k mod capacity h)"
    using table_inv_bucket[OF h, of k] by (simp add: bucket_of_def)
  then show ?thesis
    using table_inv_cap_nz[OF h] by (simp add: hash_get_def lookup_def bucket_of_def Let_def)
qed

lemma lookup_in:
  assumes "table_inv h" and "a \<in> set (nodes h)"
  shows "lookup h (key a) = val a"
proof -
  from assms(2) have "a \<in> set (concat (table h))" by (simp only: nodes_def)
  then have "\<exists>i < length (table h). a \<in> set (table h ! i)" by (rule in_concat_nth)
  then obtain i where i: "i < length (table h)" "a \<in> set (table h ! i)" by blast
  have b: "bucket_of (capacity h) (key a) = i"
    using table_inv_node[OF assms(1) i] by simp
  have "distinct (map key (concat (table h)))"
    using table_inv_distinct[OF assms(1)] by (simp only: nodes_def)
  then have "distinct (map key (table h ! i))" using i(1) by (rule distinct_chain)
  then show ?thesis using i(2) b by (simp add: lookup_def chain_get_in)
qed

lemma lookup_notin:
  assumes "table_inv h" and "k \<notin> key ` set (nodes h)"
  shows "lookup h k = NULL"
proof -
  have "set (table h ! bucket_of (capacity h) k) \<subseteq> set (nodes h)"
    unfolding nodes_def by (rule nth_subset_concat) (rule table_inv_bucket[OF assms(1)])
  then have "k \<notin> key ` set (table h ! bucket_of (capacity h) k)" using assms(2) by auto
  then show ?thesis by (simp add: lookup_def chain_get_notin)
qed

lemma nodes_val:
  assumes "table_inv h" and "a \<in> set (nodes h)"
  shows "val a \<noteq> NULL"
proof -
  from assms(2) have "a \<in> set (concat (table h))" by (simp only: nodes_def)
  then have "\<exists>i < length (table h). a \<in> set (table h ! i)" by (rule in_concat_nth)
  then obtain i where i: "i < length (table h)" "a \<in> set (table h ! i)" by blast
  show ?thesis using table_inv_node[OF assms(1) i] by simp
qed

lemma lookup_NULL_iff:
  assumes "table_inv h"
  shows "lookup h k = NULL \<longleftrightarrow> k \<notin> key ` set (nodes h)"
proof
  note h = assms
  assume l: "lookup h k = NULL"
  show "k \<notin> key ` set (nodes h)"
  proof
    assume "k \<in> key ` set (nodes h)"
    then obtain a where a: "a \<in> set (nodes h)" "key a = k" by auto
    then show False using lookup_in[OF h a(1)] nodes_val[OF h a(1)] l by simp
  qed
next
  assume "k \<notin> key ` set (nodes h)"
  with assms show "lookup h k = NULL" by (rule lookup_notin)
qed

lemma lookup_eqI:
  assumes "table_inv h" "table_inv h'" "set (nodes h') = set (nodes h)"
  shows "lookup h' k = lookup h k"
proof (cases "k \<in> key ` set (nodes h)")
  case True
  then obtain a where a: "a \<in> set (nodes h)" "key a = k" by auto
  then show ?thesis using lookup_in[OF assms(1), of a] lookup_in[OF assms(2), of a] assms(3)
    by simp
next
  case False
  then show ?thesis using lookup_notin[OF assms(1), of k] lookup_notin[OF assms(2), of k] assms(3)
    by simp
qed

section \<open>The chain update\<close>

lemma filter_key_notin: "k \<notin> key ` set c \<Longrightarrow> filter (\<lambda>a. key a \<noteq> k) c = c"
  by (induction c) auto

lemma mset_filter_key:
  "distinct (map key c) \<Longrightarrow> a \<in> set c \<Longrightarrow>
     add_mset a (mset (filter (\<lambda>b. key b \<noteq> key a) c)) = mset c"
proof (induction c)
  case Nil
  then show ?case by simp
next
  case (Cons b c)
  show ?case
  proof (cases "key b = key a")
    case True
    then have ab: "a = b" using Cons.prems by (auto simp: image_iff)
    have "key a \<notin> key ` set c" using Cons.prems(1) ab by simp
    then have "filter (\<lambda>b. key b \<noteq> key a) c = c" by (rule filter_key_notin)
    then show ?thesis using ab by simp
  next
    case False
    then have "a \<in> set c" using Cons.prems(2) by auto
    then show ?thesis using Cons False by simp
  qed
qed

lemma length_filter_key:
  "distinct (map key xs) \<Longrightarrow>
     length (filter (\<lambda>a. key a \<noteq> k) xs) + (if k \<in> key ` set xs then 1 else 0) = length xs"
proof (induction xs)
  case Nil
  then show ?case by simp
next
  case (Cons b xs)
  show ?case
  proof (cases "key b = k")
    case True
    then have "k \<notin> key ` set xs" using Cons.prems by auto
    then have "filter (\<lambda>a. key a \<noteq> k) xs = xs" by (rule filter_key_notin)
    then show ?thesis using True by simp
  next
    case False
    then show ?thesis using Cons by auto
  qed
qed

lemma mset_upd_chain:
  assumes "distinct (map key c)"
  shows "mset (upd_chain c k v) = mset (upsert_nodes c k v)"
proof (cases "chain_find k c")
  case None
  then have "k \<notin> key ` set c" by (simp add: chain_find_None)
  then have "filter (\<lambda>a. key a \<noteq> k) c = c" by (rule filter_key_notin)
  then show ?thesis using None by (simp add: upd_chain_def upsert_nodes_def)
next
  case (Some i)
  then have i: "i < length c" "key (c ! i) = k" using chain_find_Some by blast+
  then have m: "c ! i \<in> set c" by simp
  have f: "add_mset (c ! i) (mset (filter (\<lambda>b. key b \<noteq> k) c)) = mset c"
    using mset_filter_key[OF assms m] i(2) by simp
  show ?thesis
  proof (cases "v = NULL")
    case True
    have "add_mset (c ! i) (mset (take i c @ drop (Suc i) c)) = mset c"
      using i(1) by (rule mset_take_drop)
    then have "mset (take i c @ drop (Suc i) c) = mset (filter (\<lambda>b. key b \<noteq> k) c)"
      using f by (metis add_mset_remove_trivial)
    then show ?thesis using Some True by (simp add: upd_chain_def upsert_nodes_def)
  next
    case False
    have r: "(c ! i)\<lparr>val := v\<rparr> = \<lparr>key = k, val = v\<rparr>" using i(2) by simp
    have "mset (c[i := (c ! i)\<lparr>val := v\<rparr>]) = add_mset \<lparr>key = k, val = v\<rparr> (mset c - {#c ! i#})"
      using i(1) r by (simp add: mset_update)
    also have "mset c - {#c ! i#} = mset (filter (\<lambda>b. key b \<noteq> k) c)"
      using f by (metis add_mset_remove_trivial)
    finally show ?thesis using Some False by (simp add: upd_chain_def upsert_nodes_def)
  qed
qed

lemma table_chain_update:
  "idx < length (table h) \<Longrightarrow>
     table (chain_update h idx k v) = (table h)[idx := upd_chain (table h ! idx) k v]"
  by (simp add: chain_update_def upd_chain_def Let_def split: option.splits)

lemma capacity_chain_update: "capacity (chain_update h idx k v) = capacity h"
  by (simp add: chain_update_def Let_def split: option.splits)

lemma num_elems_chain_update:
  "num_elems (chain_update h idx k v) =
     (case chain_find k (table h ! idx) of
        Some i \<Rightarrow> if v \<noteq> NULL then num_elems h else num_elems h - 1
      | None \<Rightarrow> if v \<noteq> NULL then num_elems h + 1 else num_elems h)"
  by (simp add: chain_update_def Let_def split: option.splits)

lemma others_notin:
  assumes "table_inv h" "j < length (table h)" "j \<noteq> bucket_of (capacity h) k"
  shows "k \<notin> key ` set (table h ! j)"
proof
  assume "k \<in> key ` set (table h ! j)"
  then obtain a where a: "a \<in> set (table h ! j)" "key a = k" by auto
  then show False using table_inv_node[OF assms(1,2) a(1)] assms(3) by simp
qed

lemma chain_find_bucket:
  assumes "table_inv h"
  shows "chain_find k (table h ! bucket_of (capacity h) k) = None \<longleftrightarrow> k \<notin> key ` set (nodes h)"
proof -
  let ?idx = "bucket_of (capacity h) k"
  have idx: "?idx < length (table h)" by (rule table_inv_bucket[OF assms])
  have "k \<in> key ` set (nodes h) \<longleftrightarrow> k \<in> key ` set (table h ! ?idx)"
  proof
    assume "k \<in> key ` set (nodes h)"
    then obtain a where a: "a \<in> set (concat (table h))" "key a = k" by (auto simp: nodes_def)
    from a(1) have "\<exists>i < length (table h). a \<in> set (table h ! i)" by (rule in_concat_nth)
    then obtain i where i: "i < length (table h)" "a \<in> set (table h ! i)" by blast
    have "i = ?idx" using table_inv_node[OF assms i] a(2) by simp
    then show "k \<in> key ` set (table h ! ?idx)" using i(2) a(2) by auto
  next
    assume "k \<in> key ` set (table h ! ?idx)"
    moreover have "set (table h ! ?idx) \<subseteq> set (concat (table h))"
      using idx by (rule nth_subset_concat)
    ultimately show "k \<in> key ` set (nodes h)" by (auto simp: nodes_def)
  qed
  then show ?thesis by (simp add: chain_find_None)
qed

lemma mset_cancel_bucket:
  fixes R C M U X :: "'a multiset"
  assumes "R + C = M" and "X + C = M + U"
  shows "X = R + U"
proof -
  have "X + C = (R + U) + C" using assms by (simp add: ac_simps)
  then show ?thesis by (simp only: add_right_cancel)
qed

lemma filter_other_buckets:
  assumes "table_inv h"
  shows "filter (\<lambda>a. key a \<noteq> k) (concat ((table h)[bucket_of (capacity h) k := []]))
           = concat ((table h)[bucket_of (capacity h) k := []])"
proof -
  let ?idx = "bucket_of (capacity h) k"
  let ?t = "table h"
  have idx: "?idx < length ?t" by (rule table_inv_bucket[OF assms])
  have "\<forall>a \<in> set (concat (?t[?idx := []])). key a \<noteq> k"
  proof
    fix a assume "a \<in> set (concat (?t[?idx := []]))"
    then have "\<exists>j < length (?t[?idx := []]). a \<in> set (?t[?idx := []] ! j)" by (rule in_concat_nth)
    then obtain j where j: "j < length ?t" "a \<in> set (?t[?idx := []] ! j)" by auto
    have ne: "j \<noteq> ?idx"
    proof
      assume "j = ?idx"
      then have "?t[?idx := []] ! j = []" using idx by simp
      then show False using j(2) by simp
    qed
    then have "a \<in> set (?t ! j)" using j by simp
    then show "key a \<noteq> k" using others_notin[OF assms j(1) ne] by auto
  qed
  then show ?thesis by (simp only: filter_id_conv)
qed

lemma mset_nodes_chain_update:
  assumes "table_inv h"
  shows "mset (nodes (chain_update h (bucket_of (capacity h) k) k v))
           = mset (upsert_nodes (nodes h) k v)"
proof -
  define idx where "idx = bucket_of (capacity h) k"
  define t where "t = table h"
  define c where "c = t ! idx"
  define c' where "c' = upd_chain c k v"
  define R where "R = concat (t[idx := []])"
  define N where "N = (if v = NULL then [] else [\<lparr>key = k, val = v\<rparr>])"
  let ?P = "\<lambda>a. key a \<noteq> k"
  have idx: "idx < length t" unfolding idx_def t_def by (rule table_inv_bucket[OF assms])
  have dc: "distinct (map key c)"
  proof -
    have "distinct (map key (concat t))"
      using table_inv_distinct[OF assms] by (simp only: nodes_def t_def)
    then show ?thesis unfolding c_def using idx by (rule distinct_chain)
  qed
  have R: "mset R + mset c = mset (concat t)"
    using mset_concat_update[OF idx, of "[]"] by (simp add: R_def c_def)
  have fR: "filter ?P R = R"
    unfolding R_def t_def idx_def by (rule filter_other_buckets[OF assms])
  have "filter_mset ?P (mset R + mset c) = filter_mset ?P (mset (concat t))"
    by (simp only: R)
  then have "mset (filter ?P R) + mset (filter ?P c) = mset (filter ?P (concat t))"
    by simp
  then have f: "mset R + mset (filter ?P c) = mset (filter ?P (concat t))"
    by (simp only: fR)
  have X: "mset (concat (t[idx := c'])) + mset c = mset (concat t) + mset c'"
    unfolding c_def using idx by (rule mset_concat_update)
  have "mset (concat (t[idx := c'])) = mset R + mset c'"
    using R X by (rule mset_cancel_bucket)
  also have "mset c' = mset N + mset (filter ?P c)"
    unfolding c'_def N_def by (simp add: mset_upd_chain[OF dc] upsert_nodes_def)
  also have "mset R + (mset N + mset (filter ?P c)) = mset N + (mset R + mset (filter ?P c))"
    by (simp only: ac_simps)
  also have "\<dots> = mset N + mset (filter ?P (concat t))" by (simp only: f)
  also have "\<dots> = mset (upsert_nodes (nodes h) k v)"
    by (simp add: upsert_nodes_def N_def nodes_def t_def)
  finally have "mset (concat (t[idx := c'])) = mset (upsert_nodes (nodes h) k v)" .
  moreover have "nodes (chain_update h (bucket_of (capacity h) k) k v) = concat (t[idx := c'])"
    using idx by (simp add: nodes_def table_chain_update c'_def c_def t_def idx_def)
  ultimately show ?thesis by (simp only:)
qed

lemma distinct_upsert_nodes:
  "distinct (map key xs) \<Longrightarrow> distinct (map key (upsert_nodes xs k v))"
  by (auto simp: upsert_nodes_def distinct_map_filter)

lemma length_upsert_nodes:
  "distinct (map key xs) \<Longrightarrow>
     length (upsert_nodes xs k v) + (if k \<in> key ` set xs then 1 else 0)
       = length xs + (if v = NULL then 0 else 1)"
  using length_filter_key[of xs k] by (simp add: upsert_nodes_def)

lemma distinct_nodes_chain_update:
  assumes "table_inv h"
  shows "distinct (map key (nodes (chain_update h (bucket_of (capacity h) k) k v)))"
proof -
  have "mset (map key (nodes (chain_update h (bucket_of (capacity h) k) k v)))
      = mset (map key (upsert_nodes (nodes h) k v))"
    using mset_nodes_chain_update[OF assms, of k v] by (simp only: mset_map)
  then show ?thesis
    using distinct_upsert_nodes[OF table_inv_distinct[OF assms], of k v]
      mset_eq_imp_distinct_iff by blast
qed

lemma set_nodes_chain_update:
  assumes "table_inv h"
  shows "set (nodes (chain_update h (bucket_of (capacity h) k) k v))
           = set (upsert_nodes (nodes h) k v)"
  using mset_nodes_chain_update[OF assms, of k v] by (rule mset_eq_setD)

lemma length_nodes_chain_update:
  assumes "table_inv h"
  shows "length (nodes (chain_update h (bucket_of (capacity h) k) k v))
           + (if k \<in> key ` set (nodes h) then 1 else 0)
         = length (nodes h) + (if v = NULL then 0 else 1)"
proof -
  have "length (nodes (chain_update h (bucket_of (capacity h) k) k v))
      = length (upsert_nodes (nodes h) k v)"
    using mset_nodes_chain_update[OF assms, of k v] by (rule mset_eq_length)
  then show ?thesis
    using length_upsert_nodes[OF table_inv_distinct[OF assms], of k v] by (simp only:)
qed

lemma num_elems_nodes_chain_update:
  assumes "table_inv h"
  shows "num_elems (chain_update h (bucket_of (capacity h) k) k v)
           = of_nat (length (nodes (chain_update h (bucket_of (capacity h) k) k v)))"
proof -
  let ?h' = "chain_update h (bucket_of (capacity h) k) k v"
  note n = num_elems_chain_update[of h "bucket_of (capacity h) k" k v]
  note l = length_nodes_chain_update[OF assms, of k v]
  note c = table_inv_count[OF assms]
  show ?thesis
  proof (cases "chain_find k (table h ! bucket_of (capacity h) k)")
    case None
    then have "k \<notin> key ` set (nodes h)" using chain_find_bucket[OF assms, of k] by simp
    then have "length (nodes ?h') = length (nodes h) + (if v = NULL then 0 else 1)"
      using l by simp
    then show ?thesis using n None c by simp
  next
    case (Some i)
    then have "k \<in> key ` set (nodes h)" using chain_find_bucket[OF assms, of k] by simp
    then have e: "length (nodes ?h') + 1 = length (nodes h) + (if v = NULL then 0 else 1)"
      using l by simp
    show ?thesis
    proof (cases "v = NULL")
      case True
      then have "length (nodes h) = Suc (length (nodes ?h'))" using e by simp
      then have "(of_nat (length (nodes h)) :: 32 word) = of_nat (length (nodes ?h')) + 1"
        by (simp only: of_nat_Suc) simp
      then show ?thesis using n Some c True by simp
    next
      case False
      then have "length (nodes ?h') = length (nodes h)" using e by simp
      then show ?thesis using n Some c False by simp
    qed
  qed
qed

lemma chain_update_inv:
  assumes h: "table_inv h"
    and b: "unat (capacity h) < 2 ^ 30 \<longrightarrow> length (nodes h) < 6 * unat (capacity h)"
  shows "table_inv (chain_update h (bucket_of (capacity h) k) k v)"
proof -
  let ?idx = "bucket_of (capacity h) k"
  let ?h' = "chain_update h ?idx k v"
  have idx: "?idx < length (table h)" by (rule table_inv_bucket[OF h])
  have cap: "capacity ?h' = capacity h" by (rule capacity_chain_update)
  have tab: "table ?h' = (table h)[?idx := upd_chain (table h ! ?idx) k v]"
    using idx by (rule table_chain_update)
  have 1: "\<exists>j. 4 \<le> j \<and> j \<le> 30 \<and> unat (capacity ?h') = 2 ^ j"
    using table_inv_cap[OF h] by (simp only: cap)
  have 2: "length (table ?h') = unat (capacity ?h')"
    using table_inv_length[OF h] by (simp add: tab cap)
  have 3: "\<forall>i < length (table ?h'). \<forall>a \<in> set (table ?h' ! i).
        bucket_of (capacity ?h') (key a) = i \<and> val a \<noteq> NULL"
  proof (intro allI impI ballI)
    fix i a assume i: "i < length (table ?h')" and a: "a \<in> set (table ?h' ! i)"
    have il: "i < length (table h)" using i by (simp add: tab)
    show "bucket_of (capacity ?h') (key a) = i \<and> val a \<noteq> NULL"
    proof (cases "i = ?idx")
      case False
      then have "a \<in> set (table h ! i)" using a by (simp add: tab)
      then show ?thesis using table_inv_node[OF h il] by (simp add: cap)
    next
      case True
      have dc: "distinct (map key (table h ! ?idx))"
      proof -
        have "distinct (map key (concat (table h)))"
          using table_inv_distinct[OF h] by (simp only: nodes_def)
        then show ?thesis using idx by (rule distinct_chain)
      qed
      have "a \<in> set (upd_chain (table h ! ?idx) k v)" using a True idx by (simp add: tab)
      then have "a \<in> set (upsert_nodes (table h ! ?idx) k v)"
        using mset_eq_setD[OF mset_upd_chain[OF dc, of k v]] by simp
      then consider "v \<noteq> NULL" "a = \<lparr>key = k, val = v\<rparr>" | "a \<in> set (table h ! ?idx)"
        by (auto simp: upsert_nodes_def split: if_splits)
      then show ?thesis
      proof cases
        case 1
        then show ?thesis using True by (simp add: cap)
      next
        case 2
        then show ?thesis using table_inv_node[OF h idx] True by (simp add: cap)
      qed
    qed
  qed
  have 4: "distinct (map key (nodes ?h'))" by (rule distinct_nodes_chain_update[OF h])
  have 5: "num_elems ?h' = of_nat (length (nodes ?h'))" by (rule num_elems_nodes_chain_update[OF h])
  have 6: "unat (capacity ?h') < 2 ^ 30 \<longrightarrow> length (nodes ?h') \<le> 6 * unat (capacity ?h')"
  proof
    assume "unat (capacity ?h') < 2 ^ 30"
    then have "length (nodes h) < 6 * unat (capacity h)" using b by (simp add: cap)
    moreover have "length (nodes ?h') \<le> length (nodes h) + 1"
      using length_nodes_chain_update[OF h, of k v] by (simp split: if_splits)
    ultimately show "length (nodes ?h') \<le> 6 * unat (capacity ?h')" by (simp add: cap)
  qed
  show ?thesis unfolding table_inv_def using 1 2 3 4 5 6 by blast
qed

lemma lookup_chain_update:
  assumes h: "table_inv h" and h': "table_inv (chain_update h (bucket_of (capacity h) k) k v)"
  shows "lookup (chain_update h (bucket_of (capacity h) k) k v) k'
           = (if k' = k then v else lookup h k')"
proof -
  let ?h' = "chain_update h (bucket_of (capacity h) k) k v"
  have s: "set (nodes ?h') = set (upsert_nodes (nodes h) k v)"
    by (rule set_nodes_chain_update[OF h])
  show ?thesis
  proof (cases "k' = k")
    case True
    show ?thesis
    proof (cases "v = NULL")
      case v: True
      have "k \<notin> key ` set (nodes ?h')" using s v by (auto simp: upsert_nodes_def)
      then show ?thesis using lookup_notin[OF h'] True v by simp
    next
      case False
      then have "\<lparr>key = k, val = v\<rparr> \<in> set (nodes ?h')" using s by (simp add: upsert_nodes_def)
      then show ?thesis using lookup_in[OF h', of "\<lparr>key = k, val = v\<rparr>"] True by simp
    qed
  next
    case False
    show ?thesis
    proof (cases "k' \<in> key ` set (nodes h)")
      case True
      then obtain a where a: "a \<in> set (nodes h)" "key a = k'" by auto
      then have "a \<in> set (nodes ?h')" using s False by (simp add: upsert_nodes_def)
      then show ?thesis using lookup_in[OF h', of a] lookup_in[OF h a(1)] a(2) False by simp
    next
      case nin: False
      then have "k' \<notin> key ` set (nodes ?h')"
        using s False by (auto simp: upsert_nodes_def split: if_splits)
      then show ?thesis using lookup_notin[OF h'] lookup_notin[OF h nin] False by simp
    qed
  qed
qed

section \<open>Insert and resize\<close>

declare hash_insert.simps [simp del]

lemma hash_insert_grow:
  "hash_insert d h k v =
     do { g \<leftarrow> grow d h;
          if capacity g = 0 \<or> length (table g) \<le> bucket_of (capacity g) k then None
          else Some (chain_update g (bucket_of (capacity g) k) k v) }"
  by (subst hash_insert.simps) (auto simp: grow_def bucket_of_def Let_def split: bind_splits)

lemma hash_insert_after_grow:
  assumes "grow d h = Some g" and "table_inv g"
  shows "hash_insert d h k v = Some (chain_update g (bucket_of (capacity g) k) k v)"
  using table_inv_bucket[OF assms(2), of k] table_inv_cap_nz[OF assms(2)] assms(1)
  by (simp add: hash_insert_grow)

lemma cap_below_max:
  assumes "table_inv h" and "unat (capacity h) < 2 ^ 30"
  shows "unat (capacity h) \<le> 2 ^ 29"
proof -
  obtain j where j: "unat (capacity h) = 2 ^ j" using table_inv_cap[OF assms(1)] by blast
  have "(2::nat) ^ j < 2 ^ 30" using assms(2) j by simp
  then have "j < 30" by (simp only: power_strict_increasing_iff) 
  then have "j \<le> 29" by simp
  then have "(2::nat) ^ j \<le> 2 ^ 29" by (rule power_increasing) simp
  then show ?thesis by (simp only: j)
qed

lemma unat_count:
  assumes "table_inv h" and "unat (capacity h) < 2 ^ 30"
  shows "unat (num_elems h) = length (nodes h)"
proof -
  have "length (nodes h) \<le> 6 * unat (capacity h)" by (rule table_inv_bound[OF assms])
  also have "\<dots> \<le> 6 * 2 ^ 29" using cap_below_max[OF assms] by (simp only: mult_le_mono2)
  also have "\<dots> < (2::nat) ^ 32" by simp
  finally have "length (nodes h) < 2 ^ 32" .
  then show ?thesis by (simp add: table_inv_count[OF assms(1)] unat_of_nat)
qed

lemma unat_count_le: "table_inv h \<Longrightarrow> unat (num_elems h) \<le> length (nodes h)"
  by (simp add: table_inv_count unat_of_nat)

lemma no_load_at_max:
  assumes "table_inv h" and "\<not> unat (capacity h) < 2 ^ 30"
  shows "\<not> load_exceeds h"
proof
  assume l: "load_exceeds h"
  obtain j where j: "unat (capacity h) = 2 ^ j" using table_inv_cap[OF assms(1)] by blast
  have "5 * unat (capacity h) < unat (num_elems h)" using j l by (rule load_exceedsD)
  moreover have "unat (num_elems h) < 2 ^ 32" using unsigned_less[of "num_elems h"] by simp
  ultimately show False using assms(2) by simp
qed

lemma not_load_bound:
  assumes "table_inv h" and "\<not> load_exceeds h"
  shows "unat (capacity h) < 2 ^ 30 \<longrightarrow> length (nodes h) < 6 * unat (capacity h)"
proof
  assume c: "unat (capacity h) < 2 ^ 30"
  obtain j where j: "unat (capacity h) = 2 ^ j" using table_inv_cap[OF assms(1)] by blast
  have "unat (num_elems h) < 6 * unat (capacity h)" using j assms(2) by (rule not_load_exceedsD)
  then show "length (nodes h) < 6 * unat (capacity h)" by (simp only: unat_count[OF assms(1) c])
qed

lemma small_not_load:
  assumes "table_inv h" and "length (nodes h) \<le> 5 * unat (capacity h)"
  shows "\<not> load_exceeds h"
proof
  assume l: "load_exceeds h"
  obtain j where j: "unat (capacity h) = 2 ^ j" using table_inv_cap[OF assms(1)] by blast
  have "5 * unat (capacity h) < unat (num_elems h)" using j l by (rule load_exceedsD)
  then show False using unat_count_le[OF assms(1)] assms(2) by simp
qed

lemma hash_insert_no_resize:
  assumes "table_inv h" and "\<not> load_exceeds h"
  shows "hash_insert d h k v = Some (chain_update h (bucket_of (capacity h) k) k v)"
    and "table_inv (chain_update h (bucket_of (capacity h) k) k v)"
proof -
  have "grow d h = Some h" using assms(2) by (simp add: grow_def)
  then show "hash_insert d h k v = Some (chain_update h (bucket_of (capacity h) k) k v)"
    using assms(1) by (rule hash_insert_after_grow)
  show "table_inv (chain_update h (bucket_of (capacity h) k) k v)"
    using assms(1) not_load_bound[OF assms] by (rule chain_update_inv)
qed

lemma association_eq: "\<lparr>key = key a, val = val a\<rparr> = (a :: association)"
  by (cases a) simp

lemma rehash_chain_ok:
  assumes "table_inv g" and "distinct (map key as)"
    and "key ` set as \<inter> key ` set (nodes g) = {}"
    and "\<forall>a \<in> set as. val a \<noteq> NULL"
    and "length (nodes g) + length as \<le> 3 * unat (capacity g)"
  shows "\<exists>g'. (\<forall>d. rehash_chain d g as = Some g') \<and> table_inv g' \<and>
           capacity g' = capacity g \<and> mset (nodes g') = mset (nodes g) + mset as"
  using assms
proof (induction as arbitrary: g)
  case Nil
  then show ?case by simp
next
  case (Cons a as)
  let ?g1 = "chain_update g (bucket_of (capacity g) (key a)) (key a) (val a)"
  have nl: "\<not> load_exceeds g" using Cons.prems(1,5) by (intro small_not_load) simp_all
  have ins: "hash_insert d g (key a) (val a) = Some ?g1" for d
    using Cons.prems(1) nl by (rule hash_insert_no_resize)
  have inv1: "table_inv ?g1" using Cons.prems(1) nl by (rule hash_insert_no_resize)
  have cap1: "capacity ?g1 = capacity g" by (rule capacity_chain_update)
  have ka: "key a \<notin> key ` set (nodes g)" using Cons.prems(3) by auto
  have va: "val a \<noteq> NULL" using Cons.prems(4) by simp
  have "filter (\<lambda>b. key b \<noteq> key a) (nodes g) = nodes g" using ka by (rule filter_key_notin)
  then have "upsert_nodes (nodes g) (key a) (val a) = a # nodes g"
    using va by (simp add: upsert_nodes_def association_eq)
  then have m1: "mset (nodes ?g1) = add_mset a (mset (nodes g))"
    using mset_nodes_chain_update[OF Cons.prems(1), of "key a" "val a"] by simp
  then have s1: "set (nodes ?g1) = insert a (set (nodes g))"
    using mset_eq_setD[of "nodes ?g1" "a # nodes g"] by simp
  have l1: "length (nodes ?g1) = Suc (length (nodes g))"
    using m1 mset_eq_length[of "nodes ?g1" "a # nodes g"] by simp
  have "\<exists>g'. (\<forall>d. rehash_chain d ?g1 as = Some g') \<and> table_inv g' \<and>
           capacity g' = capacity ?g1 \<and> mset (nodes g') = mset (nodes ?g1) + mset as"
  proof (rule Cons.IH[OF inv1])
    show "distinct (map key as)" using Cons.prems(2) by simp
    show "key ` set as \<inter> key ` set (nodes ?g1) = {}"
      using Cons.prems(2,3) by (auto simp: s1)
    show "\<forall>a \<in> set as. val a \<noteq> NULL" using Cons.prems(4) by simp
    show "length (nodes ?g1) + length as \<le> 3 * unat (capacity ?g1)"
      using Cons.prems(5) by (simp add: l1 cap1)
  qed
  then show ?case using ins by (auto simp: m1 cap1)
qed

lemma rehash_table_ok:
  assumes "table_inv g" and "distinct (map key (concat cs))"
    and "key ` set (concat cs) \<inter> key ` set (nodes g) = {}"
    and "\<forall>a \<in> set (concat cs). val a \<noteq> NULL"
    and "length (nodes g) + length (concat cs) \<le> 3 * unat (capacity g)"
  shows "\<exists>g'. (\<forall>d. rehash_table d g cs = Some g') \<and> table_inv g' \<and>
           capacity g' = capacity g \<and> mset (nodes g') = mset (nodes g) + mset (concat cs)"
  using assms
proof (induction cs arbitrary: g)
  case Nil
  then show ?case by simp
next
  case (Cons c cs)
  have "\<exists>g1. (\<forall>d. rehash_chain d g c = Some g1) \<and> table_inv g1 \<and>
           capacity g1 = capacity g \<and> mset (nodes g1) = mset (nodes g) + mset c"
  proof (rule rehash_chain_ok[OF Cons.prems(1)])
    show "distinct (map key c)" using Cons.prems(2) by simp
    show "key ` set c \<inter> key ` set (nodes g) = {}" using Cons.prems(3) by auto
    show "\<forall>a \<in> set c. val a \<noteq> NULL" using Cons.prems(4) by simp
    show "length (nodes g) + length c \<le> 3 * unat (capacity g)" using Cons.prems(5) by simp
  qed
  then obtain g1 where g1: "\<And>d. rehash_chain d g c = Some g1" "table_inv g1"
    "capacity g1 = capacity g" "mset (nodes g1) = mset (nodes g) + mset c" by blast
  have s1: "set (nodes g1) = set (nodes g) \<union> set c"
    using mset_eq_setD[of "nodes g1" "nodes g @ c"] g1(4) by simp
  have l1: "length (nodes g1) = length (nodes g) + length c"
    using mset_eq_length[of "nodes g1" "nodes g @ c"] g1(4) by simp
  have "\<exists>g'. (\<forall>d. rehash_table d g1 cs = Some g') \<and> table_inv g' \<and>
           capacity g' = capacity g1 \<and> mset (nodes g') = mset (nodes g1) + mset (concat cs)"
  proof (rule Cons.IH[OF g1(2)])
    show "distinct (map key (concat cs))" using Cons.prems(2) by simp
    have d: "key ` set c \<inter> key ` set (concat cs) = {}" using Cons.prems(2) by simp
    have e: "key ` set (concat cs) \<inter> key ` set (nodes g) = {}" using Cons.prems(3) by auto
    have "key ` set (nodes g1) = key ` set (nodes g) \<union> key ` set c"
      by (simp only: s1 image_Un)
    then show "key ` set (concat cs) \<inter> key ` set (nodes g1) = {}"
      using d e by blast
    show "\<forall>a \<in> set (concat cs). val a \<noteq> NULL" using Cons.prems(4) by simp
    show "length (nodes g1) + length (concat cs) \<le> 3 * unat (capacity g1)"
      using Cons.prems(5) by (simp add: l1 g1(3))
  qed
  then show ?case using g1 by (auto simp: ac_simps)
qed

lemma table_inv_init:
  assumes "unat cap = 2 ^ j" "4 \<le> j" "j \<le> 30"
  shows "table_inv (hash_table_init h cap)" and "nodes (hash_table_init h cap) = []"
proof -
  show n: "nodes (hash_table_init h cap) = []"
    by (simp add: nodes_def hash_table_init_def)
  show "table_inv (hash_table_init h cap)"
    unfolding table_inv_def n using assms by (auto simp: hash_table_init_def)
qed

lemma table_inv_create: "table_inv hash_create"
proof -
  have "unat INITIAL_CAPACITY = 2 ^ 4" by (simp add: INITIAL_CAPACITY_def)
  then show ?thesis unfolding hash_create_def by (rule table_inv_init) simp_all
qed

lemma hash_resize_ok:
  assumes h: "table_inv h" and l: "load_exceeds h"
  shows "\<exists>h'. (\<forall>d. hash_resize (Suc d) h = Some h') \<and> table_inv h' \<and>
           capacity h' = capacity h * 2 \<and> unat (capacity h') = 2 * unat (capacity h) \<and>
           mset (nodes h') = mset (nodes h) \<and> length (nodes h') \<le> 3 * unat (capacity h')"
proof -
  obtain j where j: "4 \<le> j" "j \<le> 30" "unat (capacity h) = 2 ^ j"
    using table_inv_cap[OF h] by blast
  have c30: "unat (capacity h) < 2 ^ 30" using no_load_at_max[OF h] l by blast
  have c29: "unat (capacity h) \<le> 2 ^ 29" by (rule cap_below_max[OF h c30])
  have "(2::nat) ^ j < 2 ^ 30" using c30 j(3) by simp
  then have j29: "j < 30" by (simp only: power_strict_increasing_iff)
  have "unat (capacity h) * unat (2 :: 32 word) < 2 ^ LENGTH(32)" using c29 by simp
  then have "unat (capacity h * 2) = unat (capacity h) * unat (2 :: 32 word)"
    by (simp only: unat_mult_lem)
  then have u2: "unat (capacity h * 2) = 2 * unat (capacity h)" by simp
  then have u2j: "unat (capacity h * 2) = 2 ^ Suc j" using j(3) by simp
  let ?g = "hash_table_init h (capacity h * 2)"
  have j1: "4 \<le> Suc j" "Suc j \<le> 30" using j(1) j29 by simp_all
  have g: "table_inv ?g" by (rule table_inv_init(1)[OF u2j j1])
  have ng: "nodes ?g = []" by (rule table_inv_init(2)[OF u2j j1])
  have cg: "capacity ?g = capacity h * 2" by (simp add: hash_table_init_def)
  have len: "length (table h) = unat (capacity h)" by (rule table_inv_length[OF h])
  have bound: "length (nodes h) \<le> 6 * unat (capacity h)" by (rule table_inv_bound[OF h c30])
  have "\<exists>g'. (\<forall>d. rehash_table d ?g (table h) = Some g') \<and> table_inv g' \<and>
           capacity g' = capacity ?g \<and> mset (nodes g') = mset (nodes ?g) + mset (concat (table h))"
  proof (rule rehash_table_ok[OF g])
    show "distinct (map key (concat (table h)))"
      using table_inv_distinct[OF h] by (simp only: nodes_def)
    show "key ` set (concat (table h)) \<inter> key ` set (nodes ?g) = {}" by (simp only: ng) simp
    show "\<forall>a \<in> set (concat (table h)). val a \<noteq> NULL"
      using nodes_val[OF h] by (simp only: nodes_def) blast
    have "length (concat (table h)) \<le> 6 * unat (capacity h)"
      using bound by (simp only: nodes_def)
    then show "length (nodes ?g) + length (concat (table h)) \<le> 3 * unat (capacity ?g)"
      by (simp only: ng cg u2) simp
  qed
  then obtain g' where g': "\<And>d. rehash_table d ?g (table h) = Some g'" "table_inv g'"
    "capacity g' = capacity h * 2" "mset (nodes g') = mset (nodes h)"
    unfolding ng cg by (auto simp: nodes_def)
  have "hash_resize (Suc d) h = Some g'" for d
    using g'(1) len c30 by (simp add: Let_def)
  moreover have "length (nodes g') \<le> 3 * unat (capacity g')"
    using mset_eq_length[OF g'(4)] bound by (simp add: g'(3) u2)
  ultimately show ?thesis using g' u2 by auto
qed

lemma grow_ok:
  assumes h: "table_inv h"
  shows "\<exists>g. (\<forall>d. grow (Suc d) h = Some g) \<and> table_inv g \<and> \<not> load_exceeds g \<and>
           capacity g = (if load_exceeds h then capacity h * 2 else capacity h) \<and>
           unat (capacity g) = (if load_exceeds h then 2 * unat (capacity h) else unat (capacity h)) \<and>
           mset (nodes g) = mset (nodes h)"
proof (cases "load_exceeds h")
  case False
  then show ?thesis using h by (simp add: grow_def)
next
  case True
  from hash_resize_ok[OF h True] obtain h' where h': "\<And>d. hash_resize (Suc d) h = Some h'"
    "table_inv h'" "capacity h' = capacity h * 2" "unat (capacity h') = 2 * unat (capacity h)"
    "mset (nodes h') = mset (nodes h)" "length (nodes h') \<le> 3 * unat (capacity h')" by blast
  have "\<not> load_exceeds h'" using h'(2,6) by (intro small_not_load) simp_all
  then show ?thesis using h' True by (simp add: grow_def)
qed

lemma grow_count:
  assumes h: "table_inv h" and g: "table_inv g" and m: "mset (nodes g) = mset (nodes h)"
  shows "num_elems g = num_elems h"
  using mset_eq_length[OF m] by (simp add: table_inv_count[OF h] table_inv_count[OF g])

lemma grow_lookup:
  assumes h: "table_inv h" and g: "table_inv g" and m: "mset (nodes g) = mset (nodes h)"
  shows "lookup g k = lookup h k"
  using h g mset_eq_setD[OF m] by (rule lookup_eqI)

lemma grow_Some_inv:
  assumes h: "table_inv h" and g: "grow d h = Some g"
  shows "(\<forall>d. grow (Suc d) h = Some g) \<and> table_inv g \<and> \<not> load_exceeds g \<and>
         capacity g = (if load_exceeds h then capacity h * 2 else capacity h) \<and>
         unat (capacity g) = (if load_exceeds h then 2 * unat (capacity h) else unat (capacity h)) \<and>
         mset (nodes g) = mset (nodes h)"
proof -
  from grow_ok[OF h] obtain g' where g': "\<And>d. grow (Suc d) h = Some g'" "table_inv g'"
    "\<not> load_exceeds g'"
    "capacity g' = (if load_exceeds h then capacity h * 2 else capacity h)"
    "unat (capacity g') = (if load_exceeds h then 2 * unat (capacity h) else unat (capacity h))"
    "mset (nodes g') = mset (nodes h)" by blast
  have "g' = g"
  proof (cases "load_exceeds h")
    case False
    then show ?thesis using g g'(1)[of 0] by (simp add: grow_def)
  next
    case True
    then have r: "hash_resize d h = Some g" using g by (simp add: grow_def)
    then obtain d' where d: "d = Suc d'" by (cases d) simp_all
    show ?thesis using g g'(1)[of d'] d by simp
  qed
  then show ?thesis using g' by blast
qed

lemma hash_insert_Some:
  assumes h: "table_inv h" and i: "hash_insert d h k v = Some h'"
  shows "\<exists>g. grow d h = Some g \<and> h' = chain_update g (bucket_of (capacity g) k) k v"
proof -
  from i obtain g where g: "grow d h = Some g"
    and r: "(if capacity g = 0 \<or> length (table g) \<le> bucket_of (capacity g) k then None
             else Some (chain_update g (bucket_of (capacity g) k) k v)) = Some h'"
    by (auto simp: hash_insert_grow split: bind_splits)
  from r have "h' = chain_update g (bucket_of (capacity g) k) k v"
    by (simp split: if_splits)
  with g show ?thesis by blast
qed

lemma hash_insert_total:
  assumes h: "table_inv h"
  shows "\<exists>g. (\<forall>d. grow (Suc d) h = Some g) \<and>
           (\<forall>d. hash_insert (Suc d) h k v = Some (chain_update g (bucket_of (capacity g) k) k v))"
proof -
  from grow_ok[OF h] obtain g where g: "\<And>d. grow (Suc d) h = Some g" "table_inv g" by blast
  have "hash_insert (Suc d) h k v = Some (chain_update g (bucket_of (capacity g) k) k v)" for d
    using g(1)[of d] g(2) by (rule hash_insert_after_grow)
  then show ?thesis using g(1) by blast
qed

lemma upsert_inv:
  assumes h: "table_inv h" and g: "grow d h = Some g"
  shows "table_inv (chain_update g (bucket_of (capacity g) k) k v)"
proof -
  have gi: "table_inv g" "\<not> load_exceeds g" using grow_Some_inv[OF h g] by simp_all
  show ?thesis using gi(1) not_load_bound[OF gi] by (rule chain_update_inv)
qed

lemma upsert_lookup:
  assumes h: "table_inv h" and g: "grow d h = Some g"
  shows "lookup (chain_update g (bucket_of (capacity g) k) k v) k'
           = (if k' = k then v else lookup h k')"
proof -
  have gi: "table_inv g" "mset (nodes g) = mset (nodes h)"
    using grow_Some_inv[OF h g] by simp_all
  have "lookup g k' = lookup h k'" using h gi by (rule grow_lookup)
  then show ?thesis
    using lookup_chain_update[OF gi(1) upsert_inv[OF h g], of k v k'] by simp
qed

lemma upsert_nodes_mset:
  assumes h: "table_inv h" and g: "grow d h = Some g"
  shows "mset (nodes (chain_update g (bucket_of (capacity g) k) k v))
           = mset (upsert_nodes (nodes h) k v)"
proof -
  have gi: "table_inv g" "mset (nodes g) = mset (nodes h)"
    using grow_Some_inv[OF h g] by simp_all
  have "filter_mset (\<lambda>a. key a \<noteq> k) (mset (nodes g))
      = filter_mset (\<lambda>a. key a \<noteq> k) (mset (nodes h))"
    by (simp only: gi(2))
  then have "mset (upsert_nodes (nodes g) k v) = mset (upsert_nodes (nodes h) k v)"
    by (simp add: upsert_nodes_def)
  then show ?thesis using mset_nodes_chain_update[OF gi(1), of k v] by simp
qed

lemma reachable_inv: "reachable h \<Longrightarrow> table_inv h"
proof (induction rule: reachable.induct)
  case create
  show ?case by (rule table_inv_create)
next
  case (insert h d k v h')
  from hash_insert_Some[OF insert.IH insert.hyps(2)] obtain g where
    g: "grow d h = Some g" "h' = chain_update g (bucket_of (capacity g) k) k v" by blast
  show ?case unfolding g(2) using insert.IH g(1) by (rule upsert_inv)
next
  case (get h k v h')
  then show ?case by (simp add: hash_get_eq)
qed

lemma reachable_insert_all:
  "reachable h \<Longrightarrow> hash_insert_all d h kvs = Some h' \<Longrightarrow> reachable h'"
proof (induction kvs arbitrary: h)
  case Nil
  then show ?case by simp
next
  case (Cons kv kvs)
  obtain k v where kv: "kv = (k, v)" by (cases kv)
  from Cons.prems(2) obtain h1 where h1: "hash_insert d h k v = Some h1"
    "hash_insert_all d h1 kvs = Some h'" by (auto simp: kv split: bind_splits)
  have "reachable h1" using Cons.prems(1) h1(1) by (rule reachable.insert)
  then show ?case using h1(2) by (rule Cons.IH)
qed

lemma hash_insert_all_append:
  "hash_insert_all d h (xs @ ys) = do { h1 \<leftarrow> hash_insert_all d h xs; hash_insert_all d h1 ys }"
  by (induction xs arbitrary: h) (auto split: bind_splits)

lemma hash_insert_all_total:
  assumes "table_inv h"
  shows "\<exists>h'. (\<forall>d. hash_insert_all (Suc d) h kvs = Some h') \<and> table_inv h' \<and>
           (\<forall>k. lookup h' k = (case map_of (rev kvs) k of Some v \<Rightarrow> v | None \<Rightarrow> lookup h k))"
  using assms
proof (induction kvs arbitrary: h)
  case Nil
  then show ?case by simp
next
  case (Cons kv kvs)
  obtain k v where kv: "kv = (k, v)" by (cases kv)
  from hash_insert_total[OF Cons.prems, of k v] obtain g where
    g: "\<And>d. grow (Suc d) h = Some g"
       "\<And>d. hash_insert (Suc d) h k v = Some (chain_update g (bucket_of (capacity g) k) k v)"
    by blast
  let ?h1 = "chain_update g (bucket_of (capacity g) k) k v"
  have i1: "table_inv ?h1" using Cons.prems g(1)[of 0] by (rule upsert_inv)
  have l1: "lookup ?h1 k' = (if k' = k then v else lookup h k')" for k'
    using Cons.prems g(1)[of 0] by (rule upsert_lookup)
  from Cons.IH[OF i1] obtain h' where h': "\<And>d. hash_insert_all (Suc d) ?h1 kvs = Some h'"
    "table_inv h'"
    "\<And>k. lookup h' k = (case map_of (rev kvs) k of Some v \<Rightarrow> v | None \<Rightarrow> lookup ?h1 k)"
    by blast
  have a: "hash_insert_all (Suc d) h (kv # kvs) = Some h'" for d
    using g(2)[of d] h'(1)[of d] by (simp add: kv)
  have b: "lookup h' k' = (case map_of (rev (kv # kvs)) k' of Some v \<Rightarrow> v | None \<Rightarrow> lookup h k')"
    for k'
    by (simp add: h'(3) l1 kv map_add_def split: option.splits)
  show ?case using a b h'(2) by blast
qed

lemma keys_lookup: "table_inv h \<Longrightarrow> key ` set (nodes h) = {k. lookup h k \<noteq> NULL}"
  using lookup_NULL_iff[of h] by blast

lemma length_nodes_card: "table_inv h \<Longrightarrow> length (nodes h) = card (key ` set (nodes h))"
  using distinct_card[of "map key (nodes h)"] table_inv_distinct[of h] by simp

lemma lookup_create: "lookup hash_create k = NULL"
proof -
  have "nodes hash_create = []"
    by (simp add: nodes_def hash_create_def hash_table_init_def)
  then show ?thesis using lookup_notin[OF table_inv_create, of k] by simp
qed

section \<open>Whole operations and example tables\<close>

lemma one_insert:
  "hash_insert d hash_create ''a'' (Ptr 1)
     = Some (chain_update hash_create (bucket_of (capacity hash_create) ''a'') ''a'' (Ptr 1))"
proof -
  have "nodes hash_create = []" by (simp add: nodes_def hash_create_def hash_table_init_def)
  then have "\<not> load_exceeds hash_create"
    by (intro small_not_load table_inv_create) simp
  with table_inv_create show ?thesis by (rule hash_insert_no_resize)
qed

lemma bucket_a: "bucket_of (capacity hash_create) ''a'' = 6"
  by code_simp

lemma table_a_eq: "chain_update hash_create (bucket_of (capacity hash_create) ''a'') ''a'' (Ptr 1) = table_a"
  by code_simp

lemma reachable_table_a: "reachable table_a"
  using reachable.insert[OF reachable.create one_insert[of 0]] by (simp only: table_a_eq)

lemma upsert_spec:
  assumes h: "table_inv h"
  shows "\<exists>g h'. (\<forall>d. grow (Suc d) h = Some g) \<and> (\<forall>d. hash_insert (Suc d) h k v = Some h') \<and>
           h' = chain_update g (bucket_of (capacity g) k) k v \<and>
           table_inv g \<and> table_inv h' \<and> \<not> load_exceeds g \<and>
           capacity h' = capacity g \<and>
           capacity g = (if load_exceeds h then capacity h * 2 else capacity h) \<and>
           unat (capacity g) = (if load_exceeds h then 2 * unat (capacity h) else unat (capacity h)) \<and>
           num_elems g = num_elems h \<and>
           mset (nodes g) = mset (nodes h) \<and>
           mset (nodes h') = mset (upsert_nodes (nodes h) k v) \<and>
           (\<forall>k'. lookup h' k' = (if k' = k then v else lookup h k'))"
proof -
  from hash_insert_total[OF h, of k v] obtain g where
    g: "\<And>d. grow (Suc d) h = Some g"
       "\<And>d. hash_insert (Suc d) h k v = Some (chain_update g (bucket_of (capacity g) k) k v)"
    by blast
  note gi = grow_Some_inv[OF h g(1)[of 0]]
  let ?h' = "chain_update g (bucket_of (capacity g) k) k v"
  have 1: "table_inv ?h'" using h g(1)[of 0] by (rule upsert_inv)
  have 2: "capacity ?h' = capacity g" by (rule capacity_chain_update)
  have 3: "num_elems g = num_elems h" using h gi by (intro grow_count) simp_all
  have 4: "mset (nodes ?h') = mset (upsert_nodes (nodes h) k v)"
    using h g(1)[of 0] by (rule upsert_nodes_mset)
  have 5: "\<forall>k'. lookup ?h' k' = (if k' = k then v else lookup h k')"
    using upsert_lookup[OF h g(1)[of 0], of k v] by blast
  show ?thesis
    apply (rule exI[of _ g], rule exI[of _ ?h'])
    using g gi 1 2 3 4 5 by blast
qed

lemma nodes_table_a: "nodes table_a = [\<lparr>key = ''a'', val = Ptr 1\<rparr>]"
  by (simp add: nodes_def table_a_def)

lemma rehash_chain_append:
  "rehash_chain d g (xs @ ys) = do { g1 \<leftarrow> rehash_chain d g xs; rehash_chain d g1 ys }"
  by (induction xs arbitrary: g) (auto split: bind_splits)

lemma rehash_table_concat: "rehash_table d g cs = rehash_chain d g (concat cs)"
  by (induction cs arbitrary: g) (auto simp: rehash_chain_append split: bind_splits)

lemma hash_resize_unfold:
  assumes "table_inv h" and "unat (capacity h) < 2 ^ 30"
  shows "hash_resize (Suc d) h = rehash_chain d (hash_table_init h (capacity h * 2)) (nodes h)"
  using table_inv_length[OF assms(1)] assms(2)
  by (simp add: Let_def rehash_table_concat nodes_def)

lemma hash_insert_no_fuel: "load_exceeds g \<Longrightarrow> hash_insert 0 g k v = None"
  by (simp add: hash_insert_grow grow_def)

lemma distinct_keys_upto: "n < 256 \<Longrightarrow> distinct (map fst (keys_upto n))"
proof -
  assume n: "n < 256"
  have "inj_on (\<lambda>i. [char_of i]) (set [1..<Suc n])"
  proof (rule inj_onI)
    fix i j assume i: "i \<in> set [1..<Suc n]" and j: "j \<in> set [1..<Suc n]"
      and e: "[char_of i] = [char_of j]"
    have "i < 256" "j < 256" using i j n by auto
    then have "of_char (char_of i :: char) = i" "of_char (char_of j :: char) = j" by simp_all
    then show "i = j" using e by (metis list.inject)
  qed
  then have "distinct (map (\<lambda>i. [char_of i]) [1..<Suc n])" by (simp add: distinct_map)
  moreover have "map fst (keys_upto n) = map (\<lambda>i. [char_of i]) [1..<Suc n]"
    by (simp add: keys_upto_def comp_def)
  ultimately show ?thesis by simp
qed

lemma length_keys_upto: "length (keys_upto n) = n"
  by (simp add: keys_upto_def)

lemma vals_keys_upto: "list_all (\<lambda>kv. snd kv \<noteq> NULL) (keys_upto n)"
  by (simp add: keys_upto_def list_all_iff)

lemma insert_all_no_resize:
  assumes "table_inv h" and "length (nodes h) + length kvs \<le> 5 * unat (capacity h) + 1"
    and "hash_insert_all d h kvs = Some h'"
  shows "capacity h' = capacity h"
  using assms
proof (induction kvs arbitrary: h)
  case Nil
  then show ?case by simp
next
  case (Cons kv kvs)
  obtain k v where kv: "kv = (k, v)" by (cases kv)
  let ?h1 = "chain_update h (bucket_of (capacity h) k) k v"
  have nl: "\<not> load_exceeds h" using Cons.prems(1,2) by (intro small_not_load) simp_all
  have ins: "hash_insert d h k v = Some ?h1" using Cons.prems(1) nl by (rule hash_insert_no_resize)
  have inv1: "table_inv ?h1" using Cons.prems(1) nl by (rule hash_insert_no_resize)
  have cap1: "capacity ?h1 = capacity h" by (rule capacity_chain_update)
  have "length (nodes ?h1) \<le> length (nodes h) + 1"
    using length_nodes_chain_update[OF Cons.prems(1), of k v] by (simp split: if_splits)
  then have b: "length (nodes ?h1) + length kvs \<le> 5 * unat (capacity ?h1) + 1"
    using Cons.prems(2) by (simp add: cap1)
  have "hash_insert_all d ?h1 kvs = Some h'" using Cons.prems(3) ins by (simp add: kv)
  from Cons.IH[OF inv1 b this] show ?case by (simp add: cap1)
qed

lemma insert_all_count:
  assumes h: "table_inv h" and v: "\<forall>kv \<in> set kvs. snd kv \<noteq> NULL"
    and r: "hash_insert_all (Suc d) h kvs = Some h'"
  shows "table_inv h'" and "key ` set (nodes h') = key ` set (nodes h) \<union> fst ` set kvs"
    and "\<And>k v. map_of (rev kvs) k = Some v \<Longrightarrow> lookup h' k = v"
proof -
  from hash_insert_all_total[OF h, of kvs] obtain h2 where
    h2: "\<And>d. hash_insert_all (Suc d) h kvs = Some h2" "table_inv h2"
        "\<And>k. lookup h2 k = (case map_of (rev kvs) k of Some v \<Rightarrow> v | None \<Rightarrow> lookup h k)"
    by blast
  have e: "h2 = h'" using h2(1)[of d] r by simp
  show "table_inv h'" using h2(2) e by simp
  show "lookup h' k = v" if "map_of (rev kvs) k = Some v" for k v
    using h2(3)[of k] that e by simp
  have "lookup h' k \<noteq> NULL \<longleftrightarrow> lookup h k \<noteq> NULL \<or> k \<in> fst ` set kvs" for k
  proof (cases "map_of (rev kvs) k")
    case None
    then have "k \<notin> fst ` set kvs" by (simp add: map_of_eq_None_iff)
    then show ?thesis using h2(3)[of k] None e by simp
  next
    case (Some w)
    then have "(k, w) \<in> set kvs" using map_of_SomeD[of "rev kvs" k w] by simp
    then have "w \<noteq> NULL" "k \<in> fst ` set kvs" using v by force+
    then show ?thesis using h2(3)[of k] Some e by simp
  qed
  then show "key ` set (nodes h') = key ` set (nodes h) \<union> fst ` set kvs"
    using keys_lookup[OF h] keys_lookup[OF \<open>table_inv h'\<close>] by auto
qed

lemma nodes_create: "nodes hash_create = []"
  by (simp add: nodes_def hash_create_def hash_table_init_def)

lemma capacity_create: "capacity hash_create = 16"
  by (simp add: hash_create_def hash_table_init_def INITIAL_CAPACITY_def)

lemma fill_create:
  assumes "\<forall>kv \<in> set kvs. snd kv \<noteq> NULL"
  shows "\<exists>h. (\<forall>d. hash_insert_all (Suc d) hash_create kvs = Some h) \<and> table_inv h \<and> reachable h \<and>
           (\<forall>k v. map_of (rev kvs) k = Some v \<longrightarrow> lookup h k = v) \<and>
           length (nodes h) = card (fst ` set kvs)"
proof -
  from hash_insert_all_total[OF table_inv_create, of kvs] obtain h where
    h: "\<And>d. hash_insert_all (Suc d) hash_create kvs = Some h" by blast
  note c = insert_all_count[OF table_inv_create assms h[of 0]]
  have r: "reachable h" using reachable.create h[of 0] by (rule reachable_insert_all)
  have "key ` set (nodes h) = fst ` set kvs" using c(2) by (simp add: nodes_create)
  then have "length (nodes h) = card (fst ` set kvs)" using length_nodes_card[OF c(1)] by simp
  then show ?thesis using h c(1,3) r by blast
qed

lemma card_keys_upto: "n < 256 \<Longrightarrow> card (fst ` set (keys_upto n)) = n"
  using distinct_card[OF distinct_keys_upto[of n]] by (simp add: length_keys_upto)

lemma vals_keys_upto_ball: "\<forall>kv \<in> set (keys_upto n). snd kv \<noteq> NULL"
  using vals_keys_upto[of n] by (simp add: list_all_iff)

lemma filled_run: "hash_insert_all (Suc d) hash_create (keys_upto n) = Some (filled n)"
proof -
  from fill_create[OF vals_keys_upto_ball[of n]] obtain h where
    h: "\<And>d. hash_insert_all (Suc d) hash_create (keys_upto n) = Some h" by blast
  have "filled n = h" using h[of 0] by (simp add: filled_def)
  then show ?thesis using h[of d] by simp
qed

lemma filled_reachable: "reachable (filled n)"
  using reachable.create filled_run[of 0 n] by (rule reachable_insert_all)

lemma filled_capacity: "n \<le> 81 \<Longrightarrow> capacity (filled n) = 16"
proof -
  assume "n \<le> 81"
  then have "length (nodes hash_create) + length (keys_upto n) \<le> 5 * unat (capacity hash_create) + 1"
    by (simp add: nodes_create length_keys_upto capacity_create)
  from insert_all_no_resize[OF table_inv_create this filled_run[of 0 n]]
  show ?thesis by (simp add: capacity_create)
qed

lemma filled_keys: "key ` set (nodes (filled n)) = fst ` set (keys_upto n)"
  using insert_all_count(2)[OF table_inv_create vals_keys_upto_ball[of n] filled_run[of 0 n]]
  by (simp add: nodes_create)

lemma filled_length: "n < 256 \<Longrightarrow> length (nodes (filled n)) = n"
  using length_nodes_card[OF reachable_inv[OF filled_reachable[of n]]] card_keys_upto[of n]
  by (simp add: filled_keys)

lemma filled_num_elems: "n < 256 \<Longrightarrow> num_elems (filled n) = of_nat n"
  using table_inv_count[OF reachable_inv[OF filled_reachable[of n]]] by (simp add: filled_length)

lemma filled_step:
  "hash_insert (Suc d) (filled n) [char_of (Suc n)] (Ptr (Suc n)) = Some (filled (Suc n))"
proof -
  have "keys_upto (Suc n) = keys_upto n @ [([char_of (Suc n)], Ptr (Suc n))]"
    by (simp add: keys_upto_def)
  then have "hash_insert_all (Suc d) hash_create (keys_upto n @ [([char_of (Suc n)], Ptr (Suc n))])
      = Some (filled (Suc n))"
    using filled_run[of d "Suc n"] by simp
  then show ?thesis by (simp add: hash_insert_all_append filled_run split: bind_splits)
qed

lemma filled_load_factor:
  assumes "n \<le> 81"
  shows "hash_load_factor (filled n) = Finite (of_nat n / 16)"
proof -
  have c: "unat (capacity (filled n)) = 2 ^ 4" using assms by (simp add: filled_capacity)
  have u: "unat (of_nat n :: 32 word) = n" using assms by (simp add: unat_of_nat)
  have "is_f32 (of_nat n)" using assms by (intro is_f32_small) simp
  then have "round_f32 (of_nat n) = of_nat n" by (rule round_f32_id)
  then show ?thesis using hash_load_factor_pow2[OF c] assms by (simp add: filled_num_elems u)
qed

lemma filled_load: "load_exceeds (filled 81)"
  using filled_load_factor[of 81] by (simp add: f32_of_int_thr)

lemma filled_no_load: "\<not> load_exceeds (filled 80)"
  using filled_load_factor[of 80] by (simp add: f32_of_int_thr)

lemma keys_upto_last: "0 < n \<Longrightarrow> n < 256 \<Longrightarrow> map_of (rev (keys_upto n)) [char_of n] = Some (Ptr n)"
proof -
  assume n: "0 < n" "n < 256"
  have "distinct (map fst (rev (keys_upto n)))"
    using distinct_keys_upto[OF n(2)] by (simp add: rev_map[symmetric])
  moreover have "([char_of n], Ptr n) \<in> set (rev (keys_upto n))"
    using n(1) by (auto simp: keys_upto_def)
  ultimately show ?thesis by simp
qed

lemma grow_capacity:
  assumes "table_inv h" and "grow d h = Some g"
  shows "capacity g = (if load_exceeds h then capacity h * 2 else capacity h)"
    and "unat (capacity g) = (if load_exceeds h then 2 * unat (capacity h) else unat (capacity h))"
proof -
  note g = grow_Some_inv[OF assms]
  show "capacity g = (if load_exceeds h then capacity h * 2 else capacity h)"
    by (rule g[THEN conjunct2, THEN conjunct2, THEN conjunct2, THEN conjunct1])
  show "unat (capacity g)
      = (if load_exceeds h then 2 * unat (capacity h) else unat (capacity h))"
    by (rule g[THEN conjunct2, THEN conjunct2, THEN conjunct2, THEN conjunct2, THEN conjunct1])
qed

lemma upsert_capacity:
  assumes i: "table_inv h"
  shows "\<exists>h'. (\<forall>d. hash_insert (Suc d) h k v = Some h') \<and>
               capacity h' = (if load_exceeds h then capacity h * 2 else capacity h) \<and>
               unat (capacity h') = (if load_exceeds h then 2 * unat (capacity h)
                                     else unat (capacity h))"
proof -
  from hash_insert_total[OF i, of k v] obtain g where
    g: "\<And>d. grow (Suc d) h = Some g"
       "\<And>d. hash_insert (Suc d) h k v = Some (chain_update g (bucket_of (capacity g) k) k v)"
    by blast
  let ?h' = "chain_update g (bucket_of (capacity g) k) k v"
  have c: "capacity ?h' = capacity g" by (rule capacity_chain_update)
  have 1: "capacity ?h' = (if load_exceeds h then capacity h * 2 else capacity h)"
    unfolding c by (rule grow_capacity(1)[OF i g(1)[of 0]])
  have 2: "unat (capacity ?h')
      = (if load_exceeds h then 2 * unat (capacity h) else unat (capacity h))"
    unfolding c by (rule grow_capacity(2)[OF i g(1)[of 0]])
  show ?thesis
  proof (intro exI[of _ ?h'] conjI allI)
    show "hash_insert (Suc d) h k v = Some ?h'" for d by (rule g(2))
    show "capacity ?h' = (if load_exceeds h then capacity h * 2 else capacity h)" by (rule 1)
    show "unat (capacity ?h')
      = (if load_exceeds h then 2 * unat (capacity h) else unat (capacity h))" by (rule 2)
  qed
qed

lemma load_exceeds_cong:
  "capacity a = capacity b \<Longrightarrow> num_elems a = num_elems b \<Longrightarrow> load_exceeds a = load_exceeds b"
  by (simp add: hash_load_factor_def)

lemma cap_max_no_load:
  assumes "unat (capacity x) = 2 ^ j" and "\<not> unat (capacity x) < 2 ^ 30"
  shows "\<not> load_exceeds x"
proof
  assume "load_exceeds x"
  with assms(1) have "5 * unat (capacity x) < unat (num_elems x)" by (rule load_exceedsD)
  moreover have "unat (num_elems x) < 2 ^ 32" using unsigned_less[of "num_elems x"] by simp
  ultimately show False using assms(2) by simp
qed

lemma unat_pred: "(x :: 32 word) \<noteq> 0 \<Longrightarrow> unat (x - 1) = unat x - 1"
  by (simp add: unat_minus_one)

lemma hash_insert_capacity:
  assumes "table_inv h" and "hash_insert d h k v = Some h'"
  shows "capacity h' = (if load_exceeds h then capacity h * 2 else capacity h)"
    and "unat (capacity h')
           = (if load_exceeds h then 2 * unat (capacity h) else unat (capacity h))"
proof -
  from hash_insert_Some[OF assms] obtain g where
    g: "grow d h = Some g" "h' = chain_update g (bucket_of (capacity g) k) k v" by blast
  have c: "capacity h' = capacity g" unfolding g(2) by (rule capacity_chain_update)
  show "capacity h' = (if load_exceeds h then capacity h * 2 else capacity h)"
    unfolding c by (rule grow_capacity(1)[OF assms(1) g(1)])
  show "unat (capacity h')
      = (if load_exceeds h then 2 * unat (capacity h) else unat (capacity h))"
    unfolding c by (rule grow_capacity(2)[OF assms(1) g(1)])
qed

lemma filled_capacity_step:
  "capacity (filled (Suc n))
     = (if load_exceeds (filled n) then capacity (filled n) * 2 else capacity (filled n))"
  using reachable_inv[OF filled_reachable[of n]] filled_step[of 0 n]
  by (rule hash_insert_capacity)

lemma filled_capacity_all:
  "n < 256 \<Longrightarrow> capacity (filled n) = (if n \<le> 81 then 16 else if n \<le> 161 then 32 else 64)"
proof (induction n)
  case 0
  then show ?case by (simp add: filled_capacity)
next
  case (Suc n)
  then have n: "n < 255" and
    c: "capacity (filled n) = (if n \<le> 81 then 16 else if n \<le> 161 then 32 else 64)" by simp_all
  have ne: "unat (num_elems (filled n)) = n" using n by (simp add: filled_num_elems unat_of_nat)
  have s: "unat (num_elems (filled n)) < 2 ^ 24" using n by (simp add: ne)
  consider "n \<le> 81" | "82 \<le> n" "n \<le> 161" | "162 \<le> n" by linarith
  then have l: "load_exceeds (filled n) \<longleftrightarrow> n = 81 \<or> n = 161"
  proof cases
    case 1
    then have u: "unat (capacity (filled n)) = 2 ^ 4" using c by simp
    show ?thesis using load_exceeds_small[OF u s] 1 by (auto simp: ne u)
  next
    case 2
    then have u: "unat (capacity (filled n)) = 2 ^ 5" using c by simp
    show ?thesis using load_exceeds_small[OF u s] 2 by (auto simp: ne u)
  next
    case 3
    then have u: "unat (capacity (filled n)) = 2 ^ 6" using c by simp
    show ?thesis using load_exceeds_small[OF u s] 3 n by (auto simp: ne u)
  qed
  show ?case unfolding filled_capacity_step l c by auto
qed

lemma double_capacity:
  assumes "table_inv h" and "unat (capacity h) < 2 ^ 30"
  shows "unat (capacity h * 2) = 2 * unat (capacity h)"
proof -
  have "unat (capacity h) \<le> 2 ^ 29" by (rule cap_below_max[OF assms])
  then have "unat (capacity h) * unat (2 :: 32 word) < 2 ^ LENGTH(32)" by simp
  then have "unat (capacity h * 2) = unat (capacity h) * unat (2 :: 32 word)"
    by (simp only: unat_mult_lem)
  then show ?thesis by simp
qed

lemma rehash_prefix:
  assumes i: "table_inv h" and l: "load_exceeds h"
  shows "\<exists>g. (\<forall>d. rehash_chain d (hash_table_init h (capacity h * 2)) (take n (nodes h)) = Some g) \<and>
           table_inv g \<and> \<not> load_exceeds g"
proof -
  obtain j where j: "4 \<le> j" "j \<le> 30" "unat (capacity h) = 2 ^ j"
    using table_inv_cap[OF i] by blast
  have c30: "unat (capacity h) < 2 ^ 30" using no_load_at_max[OF i] l by blast
  have "(2::nat) ^ j < 2 ^ 30" using c30 j(3) by simp
  then have j29: "j < 30" by (simp only: power_strict_increasing_iff)
  have u2: "unat (capacity h * 2) = 2 * unat (capacity h)" by (rule double_capacity[OF i c30])
  have u2j: "unat (capacity h * 2) = 2 ^ Suc j" using u2 j(3) by simp
  have j1: "4 \<le> Suc j" "Suc j \<le> 30" using j(1) j29 by simp_all
  let ?g0 = "hash_table_init h (capacity h * 2)"
  have g0: "table_inv ?g0" by (rule table_inv_init(1)[OF u2j j1])
  have n0: "nodes ?g0 = []" by (rule table_inv_init(2)[OF u2j j1])
  have c0: "capacity ?g0 = capacity h * 2" by (simp add: hash_table_init_def)
  have bound: "length (nodes h) \<le> 6 * unat (capacity h)" by (rule table_inv_bound[OF i c30])
  have "\<exists>g'. (\<forall>d. rehash_chain d ?g0 (take n (nodes h)) = Some g') \<and> table_inv g' \<and>
         capacity g' = capacity ?g0 \<and> mset (nodes g') = mset (nodes ?g0) + mset (take n (nodes h))"
  proof (rule rehash_chain_ok[OF g0])
    have "distinct (take n (map key (nodes h)))"
      using table_inv_distinct[OF i] by (rule distinct_take)
    then show "distinct (map key (take n (nodes h)))" by (simp only: take_map)
    show "key ` set (take n (nodes h)) \<inter> key ` set (nodes ?g0) = {}" by (simp only: n0) simp
    show "\<forall>a \<in> set (take n (nodes h)). val a \<noteq> NULL"
      using nodes_val[OF i] set_take_subset[of n "nodes h"] by blast
    show "length (nodes ?g0) + length (take n (nodes h)) \<le> 3 * unat (capacity ?g0)"
      using bound u2 by (simp only: n0 c0) simp
  qed
  then obtain g' where g': "\<And>d. rehash_chain d ?g0 (take n (nodes h)) = Some g'" "table_inv g'"
    "capacity g' = capacity ?g0" "mset (nodes g') = mset (nodes ?g0) + mset (take n (nodes h))"
    by blast
  have "length (nodes g') = length (take n (nodes h))"
    using g'(4) mset_eq_length[of "nodes g'" "take n (nodes h)"] by (simp add: n0)
  then have "length (nodes g') \<le> 5 * unat (capacity g')"
    using bound u2 by (simp add: g'(3) c0)
  then have "\<not> load_exceeds g'" by (rule small_not_load[OF g'(2)])
  then show ?thesis using g'(1,2) by blast
qed

lemma filled81: "capacity (filled 81) = 16" "num_elems (filled 81) = 81"
  "length (nodes (filled 81)) = 81"
  using filled_capacity[of 81] filled_num_elems[of 81] filled_length[of 81] by simp_all

lemma zz_fresh: "''zz'' \<notin> key ` set (nodes (filled n))"
  by (auto simp: filled_keys keys_upto_def)

lemma one_present: "0 < n \<Longrightarrow> [char_of (1::nat)] \<in> key ` set (nodes (filled n))"
  by (force simp: filled_keys keys_upto_def image_iff)

section \<open>The claims\<close>

text \<open>
  In the statements, \<open>\<forall>d. hash_insert (Suc d) h k v = Some h'\<close> says that the call returns
  \<open>h'\<close> whenever one resize is allowed, however many more are: it returns, and no resize
  nests inside another. A key is held by a table when it is the key of one of its
  \<open>nodes\<close>. The tables \<open>filled n\<close> are reachable: \<open>filled 80\<close> has 80 elements in 16
  buckets, a load factor of exactly 5, and \<open>filled 81\<close> has 81, a load factor above the
  threshold, so that the next call of \<^verbatim>\<open>hash_insert\<close> on it resizes.
\<close>

text \<open>
  C1, as the code has it. On a reachable table every insert returns. The threshold is
  tested on entry, before the element is added, so it bounds the table with one element
  fewer: unless the table is left empty, the load factor computed for \<open>num_elems - 1\<close> does
  not exceed the threshold; for a table of fewer than \<open>2 ^ 24\<close> elements, where the
  single-precision quotient is exact, \<open>num_elems\<close> is at most \<open>5 * capacity + 1\<close>.
\<close>

theorem load_factor_bound:
  assumes "reachable h"
  shows "\<exists>h'. (\<forall>d. hash_insert (Suc d) h k v = Some h') \<and>
           (num_elems h' \<noteq> 0 \<longrightarrow> \<not> load_exceeds (h'\<lparr>num_elems := num_elems h' - 1\<rparr>)) \<and>
           (unat (num_elems h') < 2 ^ 24 \<longrightarrow> unat (num_elems h') \<le> 5 * unat (capacity h') + 1)"
proof -
  have i: "table_inv h" using assms by (rule reachable_inv)
  from upsert_spec[OF i, of k v] obtain g h' where
    u: "\<And>d. hash_insert (Suc d) h k v = Some h'"
       "h' = chain_update g (bucket_of (capacity g) k) k v"
       "table_inv g" "table_inv h'" "\<not> load_exceeds g" "capacity h' = capacity g" by blast
  obtain j where j: "unat (capacity g) = 2 ^ j" using table_inv_cap[OF u(3)] by blast
  let ?p = "h'\<lparr>num_elems := num_elems h' - 1\<rparr>"
  have cp: "capacity ?p = capacity g" using u(6) by simp
  have le: "\<not> load_exceeds x"
    if "capacity x = capacity g" "unat (num_elems x) \<le> unat (num_elems g)" for x
  proof
    assume l: "load_exceeds x"
    have "unat (capacity x) = 2 ^ j" using j that(1) by simp
    from load_exceeds_mono[OF this that(1)[symmetric] that(2) l] u(5) show False by simp
  qed
  have a: "\<not> load_exceeds ?p" if nz: "num_elems h' \<noteq> 0"
  proof (cases "unat (capacity g) < 2 ^ 30")
    case False
    have "unat (capacity ?p) = 2 ^ j" using j cp by simp
    then show ?thesis using False cp by (intro cap_max_no_load) simp_all
  next
    case True
    have ng: "unat (num_elems g) = length (nodes g)" by (rule unat_count[OF u(3) True])
    have up: "unat (num_elems ?p) = unat (num_elems h') - 1" using nz by (simp add: unat_pred)
    consider (same) "num_elems h' = num_elems g" | (more) "num_elems h' = num_elems g + 1"
      | (less) "num_elems h' = num_elems g - 1"
        "chain_find k (table g ! bucket_of (capacity g) k) \<noteq> None"
      using num_elems_chain_update[of g "bucket_of (capacity g) k" k v]
      by (auto simp: u(2) split: option.splits if_splits)
    then show ?thesis
    proof cases
      case same
      then have "unat (num_elems ?p) \<le> unat (num_elems g)" using up by simp
      with cp show ?thesis by (rule le)
    next
      case more
      then have "num_elems ?p = num_elems g" by simp
      then show ?thesis using load_exceeds_cong[OF cp, of] u(5) by simp
    next
      case less
      then have "k \<in> key ` set (nodes g)" using chain_find_bucket[OF u(3), of k] by simp
      then have "nodes g \<noteq> []" by auto
      then have "unat (num_elems g) \<noteq> 0" using ng by simp
      then have "num_elems g \<noteq> 0" by (simp add: unat_eq_0)
      then have "unat (num_elems h') = unat (num_elems g) - 1" using less(1) by (simp add: unat_pred)
      then have "unat (num_elems ?p) \<le> unat (num_elems g)" using up by simp
      with cp show ?thesis by (rule le)
    qed
  qed
  have b: "unat (num_elems h') \<le> 5 * unat (capacity h') + 1" if s: "unat (num_elems h') < 2 ^ 24"
  proof (cases "num_elems h' = 0")
    case True
    then show ?thesis by simp
  next
    case False
    have up: "unat (num_elems ?p) = unat (num_elems h') - 1" using False by (simp add: unat_pred)
    have "unat (capacity ?p) = 2 ^ j" using j cp by simp
    moreover have "unat (num_elems ?p) < 2 ^ 24" using s up by simp
    ultimately have "load_exceeds ?p \<longleftrightarrow> 5 * unat (capacity ?p) < unat (num_elems ?p)"
      by (rule load_exceeds_small)
    then have "\<not> 5 * unat (capacity ?p) < unat (num_elems ?p)" using a[OF False] by simp
    then show ?thesis using up by simp
  qed
  show ?thesis using u(1) a b by blast
qed

theorem load_factor_bound_witness:
  "reachable (filled 80) \<and>
   (\<forall>d. hash_insert (Suc d) (filled 80) [char_of (81::nat)] (Ptr 81) = Some (filled 81)) \<and>
   num_elems (filled 81) \<noteq> 0 \<and>
   \<not> load_exceeds ((filled 81)\<lparr>num_elems := num_elems (filled 81) - 1\<rparr>) \<and>
   unat (num_elems (filled 81)) < 2 ^ 24 \<and>
   unat (num_elems (filled 81)) \<le> 5 * unat (capacity (filled 81)) + 1"
proof -
  have s: "hash_insert (Suc d) (filled 80) [char_of (81::nat)] (Ptr 81) = Some (filled 81)" for d
    using filled_step[of d 80] by simp
  from load_factor_bound[OF filled_reachable[of 80], of "[char_of (81::nat)]" "Ptr 81"]
  obtain h' where h': "\<And>d. hash_insert (Suc d) (filled 80) [char_of (81::nat)] (Ptr 81) = Some h'"
    "num_elems h' \<noteq> 0 \<longrightarrow> \<not> load_exceeds (h'\<lparr>num_elems := num_elems h' - 1\<rparr>)"
    "unat (num_elems h') < 2 ^ 24 \<longrightarrow> unat (num_elems h') \<le> 5 * unat (capacity h') + 1" by blast
  have e: "h' = filled 81" using h'(1)[of 0] s[of 0] by simp
  have 1: "num_elems (filled 81) \<noteq> 0" "unat (num_elems (filled 81)) < 2 ^ 24"
    by (simp_all add: filled81)
  show ?thesis using filled_reachable[of 80] s h'(2,3) 1 unfolding e by blast
qed

text \<open>
  C1 as stated fails. The insert of an 81st key into a fresh table finds the load factor
  at exactly 5, does not resize, and leaves 81 elements in 16 buckets: a load factor of
  81/16, above the threshold.
\<close>

theorem load_factor_bound_counterexample:
  "reachable (filled 80) \<and>
   hash_load_factor (filled 80) = Finite 5 \<and>
   hash_insert (Suc 0) (filled 80) [char_of (81::nat)] (Ptr 81) = Some (filled 81) \<and>
   capacity (filled 81) = 16 \<and> num_elems (filled 81) = 81 \<and>
   hash_load_factor (filled 81) = Finite (81 / 16) \<and>
   f32_gt (hash_load_factor (filled 81)) (f32_of_int LOAD_FACTOR_THR)"
proof -
  have 1: "hash_load_factor (filled 80) = Finite 5" using filled_load_factor[of 80] by simp
  have 2: "hash_insert (Suc 0) (filled 80) [char_of (81::nat)] (Ptr 81) = Some (filled 81)"
    using filled_step[of 0 80] by simp
  have 5: "hash_load_factor (filled 81) = Finite (81 / 16)" using filled_load_factor[of 81] by simp
  show ?thesis using filled_reachable[of 80] 1 2 filled81(1,2) 5 filled_load by blast
qed

text \<open>
  C2, as the code has it. A lookup leaves the table, and so its capacity, as it was. Every
  call of \<^verbatim>\<open>hash_insert\<close> on a reachable table returns, whatever the value, \<open>NULL\<close>
  included: it first tests the load factor of the table it is given, and the capacity it
  leaves is twice the old one when that load factor exceeds the threshold and the old
  one otherwise.
\<close>

theorem resize_trigger:
  assumes "reachable h"
  shows "(\<forall>k' v' h'. hash_get h k' = Some (v', h') \<longrightarrow> h' = h) \<and>
         (\<exists>h'. (\<forall>d. hash_insert (Suc d) h k v = Some h') \<and>
               capacity h' = (if load_exceeds h then capacity h * 2 else capacity h) \<and>
               unat (capacity h') = (if load_exceeds h then 2 * unat (capacity h)
                                     else unat (capacity h)))"
proof -
  have i: "table_inv h" using assms by (rule reachable_inv)
  have 1: "\<forall>k' v' h'. hash_get h k' = Some (v', h') \<longrightarrow> h' = h" by (simp add: hash_get_eq[OF i])
  show ?thesis using 1 upsert_capacity[OF i, of k v] by (rule conjI)
qed

theorem resize_trigger_witness:
  "reachable (filled 81) \<and> load_exceeds (filled 81) \<and> \<not> load_exceeds (filled 80) \<and>
   (\<exists>h'. (\<forall>d. hash_insert (Suc d) (filled 81) [char_of (1::nat)] NULL = Some h') \<and>
         unat (capacity h') = 2 * unat (capacity (filled 81))) \<and>
   (\<exists>h'. (\<forall>d. hash_insert (Suc d) (filled 80) [char_of (1::nat)] NULL = Some h') \<and>
         capacity h' = capacity (filled 80))"
proof -
  have 1: "\<exists>h'. (\<forall>d. hash_insert (Suc d) (filled 81) [char_of (1::nat)] NULL = Some h') \<and>
         unat (capacity h') = 2 * unat (capacity (filled 81))"
    using resize_trigger[OF filled_reachable[of 81], of "[char_of (1::nat)]" NULL, THEN conjunct2]
    by (simp only: filled_load if_True) blast
  have 2: "\<exists>h'. (\<forall>d. hash_insert (Suc d) (filled 80) [char_of (1::nat)] NULL = Some h') \<and>
         capacity h' = capacity (filled 80)"
    using resize_trigger[OF filled_reachable[of 80], of "[char_of (1::nat)]" NULL, THEN conjunct2]
    by (simp only: filled_no_load if_False) blast
  show ?thesis using filled_reachable[of 81] filled_load filled_no_load 1 2 by blast
qed

text \<open>
  C2 as stated fails. Removing a key from the reachable table of 81 elements and
  capacity 16 leaves a table of capacity 32: the removal resized it.
\<close>

theorem resize_trigger_counterexample:
  "reachable (filled 81) \<and> capacity (filled 81) = 16 \<and>
   [char_of (1::nat)] \<in> key ` set (nodes (filled 81)) \<and>
   map_option capacity (hash_insert (Suc 0) (filled 81) [char_of (1::nat)] NULL) = Some 32"
proof -
  have i: "table_inv (filled 81)" by (rule reachable_inv[OF filled_reachable])
  have k: "[char_of (1::nat)] \<in> key ` set (nodes (filled 81))" by (rule one_present) simp
  have "\<exists>h'. (\<forall>d. hash_insert (Suc d) (filled 81) [char_of (1::nat)] NULL = Some h') \<and>
          capacity h' = capacity (filled 81) * 2 \<and>
          unat (capacity h') = 2 * unat (capacity (filled 81))"
    using upsert_capacity[OF i, of "[char_of (1::nat)]" NULL] by (simp only: filled_load if_True)
  then obtain h' where
    u: "\<And>d. hash_insert (Suc d) (filled 81) [char_of (1::nat)] NULL = Some h'"
       "capacity h' = capacity (filled 81) * 2" by blast
  have c32: "capacity h' = 32" using u(2) by (simp add: filled81)
  have "map_option capacity (hash_insert (Suc 0) (filled 81) [char_of (1::nat)] NULL) = Some 32"
    by (simp only: u(1) option.map c32)
  then show ?thesis using filled_reachable[of 81] filled81(1) k by blast
qed

text \<open>
  C3. Inserting keys with values other than \<open>NULL\<close> into a fresh table, however many and
  whatever resizes they force, returns a table in which every key looks up to the value
  last given to it, and whose number of nodes and \<open>num_elems\<close> (a 32-bit count) are the
  number of distinct keys. A resize entered from a reachable table returns a table with
  the same nodes (as a multiset), each in the bucket of its key for the new capacity, with
  the same \<open>num_elems\<close>, and in which every key looks up to what it did.
\<close>

theorem growth_preserves_data:
  "((\<forall>kv \<in> set kvs. snd kv \<noteq> NULL) \<longrightarrow>
      (\<exists>h. (\<forall>d. hash_insert_all (Suc d) hash_create kvs = Some h) \<and>
           (\<forall>k v. map_of (rev kvs) k = Some v \<longrightarrow> hash_get h k = Some (v, h)) \<and>
           length (nodes h) = card (fst ` set kvs) \<and>
           num_elems h = of_nat (card (fst ` set kvs)) \<and>
           (card (fst ` set kvs) < 2 ^ 32 \<longrightarrow> unat (num_elems h) = card (fst ` set kvs)))) \<and>
   (reachable t \<and> load_exceeds t \<longrightarrow>
      (\<exists>t'. (\<forall>d. hash_resize (Suc d) t = Some t') \<and>
            mset (nodes t') = mset (nodes t) \<and>
            (\<forall>a \<in> set (nodes t'). a \<in> set (table t' ! bucket_of (capacity t') (key a))) \<and>
            num_elems t' = num_elems t \<and>
            (\<forall>k. \<exists>v. hash_get t k = Some (v, t) \<and> hash_get t' k = Some (v, t'))))"
proof (intro conjI impI)
  assume "\<forall>kv \<in> set kvs. snd kv \<noteq> NULL"
  from fill_create[OF this] obtain h where
    h: "\<And>d. hash_insert_all (Suc d) hash_create kvs = Some h" "table_inv h"
       "\<And>k v. map_of (rev kvs) k = Some v \<Longrightarrow> lookup h k = v"
       "length (nodes h) = card (fst ` set kvs)" by blast
  have 1: "\<forall>k v. map_of (rev kvs) k = Some v \<longrightarrow> hash_get h k = Some (v, h)"
    using h(3) by (simp add: hash_get_eq[OF h(2)])
  have 2: "num_elems h = of_nat (card (fst ` set kvs))"
    using table_inv_count[OF h(2)] by (simp only: h(4))
  have 3: "card (fst ` set kvs) < 2 ^ 32 \<longrightarrow> unat (num_elems h) = card (fst ` set kvs)"
    by (simp add: 2 unat_of_nat)
  show "\<exists>h. (\<forall>d. hash_insert_all (Suc d) hash_create kvs = Some h) \<and>
           (\<forall>k v. map_of (rev kvs) k = Some v \<longrightarrow> hash_get h k = Some (v, h)) \<and>
           length (nodes h) = card (fst ` set kvs) \<and>
           num_elems h = of_nat (card (fst ` set kvs)) \<and>
           (card (fst ` set kvs) < 2 ^ 32 \<longrightarrow> unat (num_elems h) = card (fst ` set kvs))"
    using h(1,4) 1 2 3 by blast
next
  assume a: "reachable t \<and> load_exceeds t"
  then have i: "table_inv t" by (simp add: reachable_inv)
  from hash_resize_ok[OF i] a obtain t' where
    t': "\<And>d. hash_resize (Suc d) t = Some t'" "table_inv t'"
        "mset (nodes t') = mset (nodes t)" by blast
  have 1: "\<forall>a \<in> set (nodes t'). a \<in> set (table t' ! bucket_of (capacity t') (key a))"
  proof
    fix a assume "a \<in> set (nodes t')"
    then have "a \<in> set (concat (table t'))" by (simp only: nodes_def)
    then have "\<exists>i < length (table t'). a \<in> set (table t' ! i)" by (rule in_concat_nth)
    then obtain i where i: "i < length (table t')" "a \<in> set (table t' ! i)" by blast
    then show "a \<in> set (table t' ! bucket_of (capacity t') (key a))"
      using table_inv_node[OF t'(2) i] by simp
  qed
  have 2: "num_elems t' = num_elems t" using i t'(2,3) by (rule grow_count)
  have "lookup t' k = lookup t k" for k using i t'(2,3) by (rule grow_lookup)
  then have 3: "\<forall>k. \<exists>v. hash_get t k = Some (v, t) \<and> hash_get t' k = Some (v, t')"
    by (simp add: hash_get_eq[OF i] hash_get_eq[OF t'(2)])
  show "\<exists>t'. (\<forall>d. hash_resize (Suc d) t = Some t') \<and>
            mset (nodes t') = mset (nodes t) \<and>
            (\<forall>a \<in> set (nodes t'). a \<in> set (table t' ! bucket_of (capacity t') (key a))) \<and>
            num_elems t' = num_elems t \<and>
            (\<forall>k. \<exists>v. hash_get t k = Some (v, t) \<and> hash_get t' k = Some (v, t'))"
    using t'(1,3) 1 2 3 by blast
qed

theorem growth_preserves_data_witness:
  "list_all (\<lambda>kv. snd kv \<noteq> NULL) (keys_upto 200) \<and>
   distinct (map fst (keys_upto 200)) \<and> length (keys_upto 200) = 200 \<and>
   (\<exists>h. (\<forall>d. hash_insert_all (Suc d) hash_create (keys_upto 200) = Some h) \<and>
        hash_get h [char_of (200::nat)] = Some (Ptr 200, h) \<and>
        length (nodes h) = 200 \<and> num_elems h = 200 \<and> capacity h = 64) \<and>
   reachable (filled 81) \<and> load_exceeds (filled 81) \<and>
   (\<exists>t'. (\<forall>d. hash_resize (Suc d) (filled 81) = Some t') \<and>
         mset (nodes t') = mset (nodes (filled 81)) \<and> num_elems t' = 81)"
proof -
  note g = growth_preserves_data[of "keys_upto 200" "filled 81"]
  from g vals_keys_upto_ball[of 200] obtain h where
    h: "\<And>d. hash_insert_all (Suc d) hash_create (keys_upto 200) = Some h"
       "\<And>k v. map_of (rev (keys_upto 200)) k = Some v \<Longrightarrow> hash_get h k = Some (v, h)"
       "length (nodes h) = card (fst ` set (keys_upto 200))"
       "num_elems h = of_nat (card (fst ` set (keys_upto 200)))" by blast
  have c: "card (fst ` set (keys_upto 200)) = 200" by (rule card_keys_upto) simp
  have 1: "hash_get h [char_of (200::nat)] = Some (Ptr 200, h)"
    by (rule h(2)) (rule keys_upto_last, simp_all)
  have 2: "length (nodes h) = 200" "num_elems h = 200" using h(3,4) by (simp_all add: c)
  have "h = filled 200" using h(1)[of 0] filled_run[of 0 200] by simp
  then have 5: "capacity h = 64" using filled_capacity_all[of 200] by simp
  from g filled_reachable[of 81] filled_load obtain t' where
    t': "\<And>d. hash_resize (Suc d) (filled 81) = Some t'"
        "mset (nodes t') = mset (nodes (filled 81))"
        "num_elems t' = num_elems (filled 81)" by blast
  have 3: "num_elems t' = 81" using t'(3) by (simp add: filled81)
  have 4: "distinct (map fst (keys_upto 200))" by (rule distinct_keys_upto) simp
  show ?thesis
    using vals_keys_upto[of 200] 4 length_keys_upto[of 200] h(1) 1 2 5 filled_reachable[of 81]
      filled_load t'(1,2) 3 by blast
qed

text \<open>
  C4. Round trip: on a reachable table, an upsert of a key with a value other than \<open>NULL\<close>
  returns, and a lookup of the key in the table it leaves returns that value.
\<close>

theorem round_trip:
  assumes "reachable h" and "v \<noteq> NULL"
  shows "\<exists>h'. (\<forall>d. hash_insert (Suc d) h k v = Some h') \<and> hash_get h' k = Some (v, h')"
proof -
  have i: "table_inv h" using assms(1) by (rule reachable_inv)
  from upsert_spec[OF i, of k v] obtain h' where
    h': "\<And>d. hash_insert (Suc d) h k v = Some h'" "table_inv h'"
        "\<And>k'. lookup h' k' = (if k' = k then v else lookup h k')" by blast
  have "hash_get h' k = Some (v, h')" by (simp add: hash_get_eq[OF h'(2)] h'(3))
  then show ?thesis using h'(1) by blast
qed

theorem round_trip_witness:
  "reachable (filled 81) \<and> Ptr 7 \<noteq> NULL \<and>
   (\<exists>h'. (\<forall>d. hash_insert (Suc d) (filled 81) ''zz'' (Ptr 7) = Some h') \<and>
         hash_get h' ''zz'' = Some (Ptr 7, h') \<and> capacity h' = 32)"
proof -
  from round_trip[OF filled_reachable[of 81], of "Ptr 7" "''zz''"] obtain h' where
    h': "\<And>d. hash_insert (Suc d) (filled 81) ''zz'' (Ptr 7) = Some h'"
        "hash_get h' ''zz'' = Some (Ptr 7, h')" by auto
  have "capacity h' = capacity (filled 81) * 2"
    using hash_insert_capacity(1)[OF reachable_inv[OF filled_reachable[of 81]] h'(1)[of 0]]
    by (simp only: filled_load if_True)
  then have "capacity h' = 32" by (simp add: filled81)
  then show ?thesis using filled_reachable[of 81] h' by blast
qed

text \<open>
  C5. On a reachable table, two upserts of \<open>k\<close> with values other than \<open>NULL\<close> return. A
  lookup of \<open>k\<close> then returns the second value. The second upsert runs on the table \<open>g\<close>
  that its growth step leaves (the table itself unless the load factor exceeds the
  threshold), finds the node of \<open>k\<close> at some position of its chain and replaces the
  value there: nothing else of \<open>g\<close> changes, and \<open>num_elems\<close> and the number of nodes are
  as after the first upsert.
\<close>

theorem overwrite:
  assumes "reachable h" and "v1 \<noteq> NULL" and "v2 \<noteq> NULL"
  shows "\<exists>h1 g h2.
           (\<forall>d. hash_insert (Suc d) h k v1 = Some h1) \<and>
           (\<forall>d. grow (Suc d) h1 = Some g) \<and>
           (\<forall>d. hash_insert (Suc d) h1 k v2 = Some h2) \<and>
           hash_get h2 k = Some (v2, h2) \<and>
           num_elems h2 = num_elems h1 \<and>
           length (nodes h2) = length (nodes h1) \<and>
           (\<exists>i < length (table g ! bucket_of (capacity g) k).
              key (table g ! bucket_of (capacity g) k ! i) = k \<and>
              h2 = g\<lparr>table := (table g)[bucket_of (capacity g) k :=
                     (table g ! bucket_of (capacity g) k)[i := \<lparr>key = k, val = v2\<rparr>]]\<rparr>)"
proof -
  have i: "table_inv h" using assms(1) by (rule reachable_inv)
  from upsert_spec[OF i, of k v1] obtain h1 where
    h1: "\<And>d. hash_insert (Suc d) h k v1 = Some h1" "table_inv h1"
        "\<And>k'. lookup h1 k' = (if k' = k then v1 else lookup h k')" by blast
  from upsert_spec[OF h1(2), of k v2] obtain g h2 where
    h2: "\<And>d. grow (Suc d) h1 = Some g" "\<And>d. hash_insert (Suc d) h1 k v2 = Some h2"
        "h2 = chain_update g (bucket_of (capacity g) k) k v2"
        "table_inv g" "table_inv h2" "num_elems g = num_elems h1"
        "mset (nodes g) = mset (nodes h1)"
        "\<And>k'. lookup h2 k' = (if k' = k then v2 else lookup h1 k')" by blast
  let ?idx = "bucket_of (capacity g) k"
  let ?c = "table g ! ?idx"
  have "lookup h1 k \<noteq> NULL" using assms(2) by (simp add: h1(3))
  then have "k \<in> key ` set (nodes h1)" using lookup_NULL_iff[OF h1(2), of k] by simp
  then have "k \<in> key ` set (nodes g)" using mset_eq_setD[OF h2(7)] by simp
  then have "chain_find k ?c \<noteq> None" using chain_find_bucket[OF h2(4), of k] by simp
  then obtain j where j: "chain_find k ?c = Some j" by blast
  then have jl: "j < length ?c" "key (?c ! j) = k" using chain_find_Some by blast+
  have r: "(?c ! j)\<lparr>val := v2\<rparr> = \<lparr>key = k, val = v2\<rparr>" using jl(2) by simp
  have e: "h2 = g\<lparr>table := (table g)[?idx := ?c[j := \<lparr>key = k, val = v2\<rparr>]]\<rparr>"
    using j assms(3) r by (simp add: h2(3) chain_update_def Let_def)
  have n: "num_elems h2 = num_elems h1" using h2(6) by (simp add: e)
  have l: "length (nodes h2) = length (nodes h1)"
  proof -
    have "length (nodes h2) + (if k \<in> key ` set (nodes g) then 1 else 0)
        = length (nodes g) + (if v2 = NULL then 0 else 1)"
      unfolding h2(3) by (rule length_nodes_chain_update[OF h2(4)])
    then have "length (nodes h2) = length (nodes g)"
      using \<open>k \<in> key ` set (nodes g)\<close> assms(3) by simp
    then show ?thesis using mset_eq_length[OF h2(7)] by simp
  qed
  have gt: "hash_get h2 k = Some (v2, h2)" by (simp add: hash_get_eq[OF h2(5)] h2(8))
  show ?thesis using h1(1) h2(1,2) gt n l jl e by blast
qed

theorem overwrite_witness:
  "reachable (filled 80) \<and> Ptr 81 \<noteq> NULL \<and> Ptr 5 \<noteq> NULL \<and>
   (\<forall>d. hash_insert (Suc d) (filled 80) [char_of (81::nat)] (Ptr 81) = Some (filled 81)) \<and>
   load_exceeds (filled 81) \<and>
   (\<exists>g h2. (\<forall>d. grow (Suc d) (filled 81) = Some g) \<and> capacity g = 32 \<and>
           (\<forall>d. hash_insert (Suc d) (filled 81) [char_of (81::nat)] (Ptr 5) = Some h2) \<and>
           hash_get h2 [char_of (81::nat)] = Some (Ptr 5, h2) \<and>
           num_elems h2 = 81 \<and> capacity h2 = 32)"
proof -
  have s: "hash_insert (Suc d) (filled 80) [char_of (81::nat)] (Ptr 81) = Some (filled 81)" for d
    using filled_step[of d 80] by simp
  from overwrite[OF filled_reachable[of 80], of "Ptr 81" "Ptr 5" "[char_of (81::nat)]"]
  obtain h1 g h2 where
    o: "\<And>d. hash_insert (Suc d) (filled 80) [char_of (81::nat)] (Ptr 81) = Some h1"
       "\<And>d. grow (Suc d) h1 = Some g"
       "\<And>d. hash_insert (Suc d) h1 [char_of (81::nat)] (Ptr 5) = Some h2"
       "hash_get h2 [char_of (81::nat)] = Some (Ptr 5, h2)"
       "num_elems h2 = num_elems h1" by auto
  have e: "h1 = filled 81" using o(1)[of 0] s[of 0] by simp
  note i = reachable_inv[OF filled_reachable[of 81]]
  have "capacity g = capacity (filled 81) * 2"
    using grow_capacity(1)[OF i o(2)[of 0, unfolded e]] by (simp only: filled_load if_True)
  then have cg: "capacity g = 32" by (simp add: filled81)
  have "capacity h2 = capacity (filled 81) * 2"
    using hash_insert_capacity(1)[OF i o(3)[of 0, unfolded e]] by (simp only: filled_load if_True)
  then have c2: "capacity h2 = 32" by (simp add: filled81)
  have n2: "num_elems h2 = 81" using o(5) by (simp add: e filled81)
  show ?thesis
    using filled_reachable[of 80] s filled_load o(2,3,4)[unfolded e] cg c2 n2 by blast
qed

text \<open>
  C6. On a reachable table that holds a node for \<open>k\<close>, the upsert of \<open>k\<close> with \<open>NULL\<close>
  returns; the node of \<open>k\<close> is gone and every other node stays; \<open>num_elems\<close> and the
  number of nodes go down by exactly one; a lookup of \<open>k\<close> then returns \<open>NULL\<close>.
\<close>

theorem delete_present:
  assumes "reachable h" and "k \<in> key ` set (nodes h)"
  shows "\<exists>h'. (\<forall>d. hash_insert (Suc d) h k NULL = Some h') \<and>
           num_elems h' = num_elems h - 1 \<and>
           length (nodes h') + 1 = length (nodes h) \<and>
           set (nodes h') = {a \<in> set (nodes h). key a \<noteq> k} \<and>
           hash_get h' k = Some (NULL, h')"
proof -
  have i: "table_inv h" using assms(1) by (rule reachable_inv)
  from upsert_spec[OF i, of k NULL] obtain h' where
    h': "\<And>d. hash_insert (Suc d) h k NULL = Some h'" "table_inv h'"
        "mset (nodes h') = mset (upsert_nodes (nodes h) k NULL)"
        "\<And>k'. lookup h' k' = (if k' = k then NULL else lookup h k')" by blast
  have m: "mset (nodes h') = mset (filter (\<lambda>a. key a \<noteq> k) (nodes h))"
    using h'(3) by (simp add: upsert_nodes_def)
  have l: "length (nodes h') + 1 = length (nodes h)"
    using mset_eq_length[OF m] length_filter_key[OF table_inv_distinct[OF i], of k] assms(2)
    by simp
  have s: "set (nodes h') = {a \<in> set (nodes h). key a \<noteq> k}"
    using mset_eq_setD[OF m] by simp
  have "(of_nat (length (nodes h)) :: 32 word) = of_nat (length (nodes h')) + 1"
    using l[symmetric] by (simp only: of_nat_add) simp
  then have n: "num_elems h' = num_elems h - 1"
    by (simp add: table_inv_count[OF i] table_inv_count[OF h'(2)])
  have g: "hash_get h' k = Some (NULL, h')" by (simp add: hash_get_eq[OF h'(2)] h'(4))
  show ?thesis using h'(1) n l s g by blast
qed

theorem delete_present_witness:
  "reachable (filled 81) \<and> [char_of (1::nat)] \<in> key ` set (nodes (filled 81)) \<and>
   (\<exists>h'. (\<forall>d. hash_insert (Suc d) (filled 81) [char_of (1::nat)] NULL = Some h') \<and>
         num_elems h' = 80 \<and> length (nodes h') = 80 \<and>
         hash_get h' [char_of (1::nat)] = Some (NULL, h'))"
proof -
  have 1: "[char_of (1::nat)] \<in> key ` set (nodes (filled 81))" by (rule one_present) simp
  from delete_present[OF filled_reachable[of 81] 1] obtain h' where
    h': "\<And>d. hash_insert (Suc d) (filled 81) [char_of (1::nat)] NULL = Some h'"
        "num_elems h' = num_elems (filled 81) - 1"
        "length (nodes h') + 1 = length (nodes (filled 81))"
        "hash_get h' [char_of (1::nat)] = Some (NULL, h')" by blast
  have "num_elems h' = 80" using h'(2) by (simp add: filled81)
  moreover have "length (nodes h') = 80" using h'(3) by (simp add: filled81)
  ultimately show ?thesis using filled_reachable[of 81] 1 h'(1,4) by blast
qed

text \<open>
  C7. On a reachable table that holds no node for \<open>k\<close>, the upsert of \<open>k\<close> with \<open>NULL\<close>
  returns, leaves \<open>num_elems\<close> and the nodes as they were (as a multiset: a resize may
  re-home them), and every key looks up to the value it had.
\<close>

theorem delete_miss:
  assumes "reachable h" and "k \<notin> key ` set (nodes h)"
  shows "\<exists>h'. (\<forall>d. hash_insert (Suc d) h k NULL = Some h') \<and>
           num_elems h' = num_elems h \<and>
           mset (nodes h') = mset (nodes h) \<and>
           (\<forall>k'. \<exists>v. hash_get h k' = Some (v, h) \<and> hash_get h' k' = Some (v, h'))"
proof -
  have i: "table_inv h" using assms(1) by (rule reachable_inv)
  from upsert_spec[OF i, of k NULL] obtain h' where
    h': "\<And>d. hash_insert (Suc d) h k NULL = Some h'" "table_inv h'"
        "mset (nodes h') = mset (upsert_nodes (nodes h) k NULL)"
        "\<And>k'. lookup h' k' = (if k' = k then NULL else lookup h k')" by blast
  have "filter (\<lambda>a. key a \<noteq> k) (nodes h) = nodes h" using assms(2) by (rule filter_key_notin)
  then have m: "mset (nodes h') = mset (nodes h)" using h'(3) by (simp add: upsert_nodes_def)
  have n: "num_elems h' = num_elems h"
    using mset_eq_length[OF m] by (simp add: table_inv_count[OF i] table_inv_count[OF h'(2)])
  have "lookup h k = NULL" using i assms(2) by (rule lookup_notin)
  then have "lookup h' k' = lookup h k'" for k' by (simp add: h'(4))
  then have "\<forall>k'. \<exists>v. hash_get h k' = Some (v, h) \<and> hash_get h' k' = Some (v, h')"
    by (simp add: hash_get_eq[OF i] hash_get_eq[OF h'(2)])
  then show ?thesis using h'(1) n m by blast
qed

theorem delete_miss_witness:
  "reachable (filled 81) \<and> ''zz'' \<notin> key ` set (nodes (filled 81)) \<and>
   (\<exists>h'. (\<forall>d. hash_insert (Suc d) (filled 81) ''zz'' NULL = Some h') \<and>
         num_elems h' = 81 \<and> mset (nodes h') = mset (nodes (filled 81)) \<and> capacity h' = 32)"
proof -
  from delete_miss[OF filled_reachable[of 81] zz_fresh[of 81]] obtain h' where
    h': "\<And>d. hash_insert (Suc d) (filled 81) ''zz'' NULL = Some h'"
        "num_elems h' = num_elems (filled 81)"
        "mset (nodes h') = mset (nodes (filled 81))" by blast
  have "capacity h' = capacity (filled 81) * 2"
    using hash_insert_capacity(1)[OF reachable_inv[OF filled_reachable[of 81]] h'(1)[of 0]]
    by (simp only: filled_load if_True)
  then have "capacity h' = 32" by (simp add: filled81)
  moreover have "num_elems h' = 81" using h'(2) by (simp add: filled81)
  ultimately show ?thesis using filled_reachable[of 81] zz_fresh[of 81] h'(1,3) by blast
qed

text \<open>
  C8. On a reachable table the lookup of a key that no node holds returns \<open>NULL\<close>; every
  lookup returns, and the table it leaves behind is the table it was given: buckets,
  chains, capacity and \<open>num_elems\<close> are untouched.
\<close>

theorem lookup_miss:
  assumes "reachable h"
  shows "(k \<notin> key ` set (nodes h) \<longrightarrow> hash_get h k = Some (NULL, h)) \<and>
         (\<forall>k'. \<exists>v. hash_get h k' = Some (v, h)) \<and>
         (\<forall>k' v h'. hash_get h k' = Some (v, h') \<longrightarrow> h' = h)"
proof -
  have i: "table_inv h" using assms by (rule reachable_inv)
  have "k \<notin> key ` set (nodes h) \<longrightarrow> hash_get h k = Some (NULL, h)"
    using lookup_notin[OF i, of k] by (simp add: hash_get_eq[OF i])
  moreover have "\<forall>k'. \<exists>v. hash_get h k' = Some (v, h)" by (simp add: hash_get_eq[OF i])
  moreover have "\<forall>k' v h'. hash_get h k' = Some (v, h') \<longrightarrow> h' = h"
    by (simp add: hash_get_eq[OF i])
  ultimately show ?thesis by blast
qed

theorem lookup_miss_witness:
  "reachable table_a \<and> ''b'' \<notin> key ` set (nodes table_a) \<and>
   hash_get table_a ''b'' = Some (NULL, table_a) \<and>
   hash_get table_a ''a'' = Some (Ptr 1, table_a)"
proof -
  have 1: "''b'' \<notin> key ` set (nodes table_a)" by (simp add: nodes_table_a)
  have 2: "hash_get table_a ''b'' = Some (NULL, table_a)"
    using lookup_miss[OF reachable_table_a, of "''b''"] 1 by blast
  have "\<lparr>key = ''a'', val = Ptr 1\<rparr> \<in> set (nodes table_a)" by (simp add: nodes_table_a)
  then have "lookup table_a ''a'' = Ptr 1"
    using lookup_in[OF reachable_inv[OF reachable_table_a], of "\<lparr>key = ''a'', val = Ptr 1\<rparr>"]
    by simp
  then have 3: "hash_get table_a ''a'' = Some (Ptr 1, table_a)"
    by (simp add: hash_get_eq[OF reachable_inv[OF reachable_table_a]])
  show ?thesis using reachable_table_a 1 2 3 by blast
qed

text \<open>
  C9. In every reachable table no two association nodes hold the same key. The same is
  true of the table that the growth step of an insert leaves, resized or not, and, when
  the table is resized, of the new table after each of the re-insertions.
\<close>

theorem key_uniqueness:
  assumes "reachable h"
  shows "distinct (map key (nodes h)) \<and>
         (\<forall>d g. grow d h = Some g \<longrightarrow> distinct (map key (nodes g))) \<and>
         (load_exceeds h \<longrightarrow>
            (\<forall>d n g. rehash_chain d (hash_table_init h (capacity h * 2)) (take n (nodes h)) = Some g
                      \<longrightarrow> distinct (map key (nodes g))))"
proof (intro conjI allI impI)
  have i: "table_inv h" using assms by (rule reachable_inv)
  show "distinct (map key (nodes h))" using i by (rule table_inv_distinct)
  show "distinct (map key (nodes g))" if "grow d h = Some g" for d g
    using grow_Some_inv[OF i that] by (simp add: table_inv_distinct)
  show "distinct (map key (nodes g))"
    if "load_exceeds h"
      and "rehash_chain d (hash_table_init h (capacity h * 2)) (take n (nodes h)) = Some g"
    for d n g
  proof -
    from rehash_prefix[OF i that(1), of n] obtain g' where
      g': "\<And>d. rehash_chain d (hash_table_init h (capacity h * 2)) (take n (nodes h)) = Some g'"
      "table_inv g'" by blast
    have "g' = g" using g'(1)[of d] that(2) by simp
    then show ?thesis using g'(2) by (simp add: table_inv_distinct)
  qed
qed

theorem key_uniqueness_witness:
  "reachable (filled 81) \<and> load_exceeds (filled 81) \<and> length (nodes (filled 81)) = 81 \<and>
   distinct (map key (nodes (filled 81))) \<and>
   (\<exists>g. grow (Suc 0) (filled 81) = Some g \<and> capacity g = 32 \<and> distinct (map key (nodes g)))"
proof -
  note k = key_uniqueness[OF filled_reachable[of 81]]
  note i = reachable_inv[OF filled_reachable[of 81]]
  from grow_ok[OF i] obtain g where g: "\<And>d. grow (Suc d) (filled 81) = Some g" by blast
  have "capacity g = capacity (filled 81) * 2"
    using grow_capacity(1)[OF i g[of 0]] by (simp only: filled_load if_True)
  then have c: "capacity g = 32" by (simp add: filled81)
  have "distinct (map key (nodes g))" using k g[of 0] by blast
  moreover have "distinct (map key (nodes (filled 81)))" using k by blast
  ultimately show ?thesis using filled_reachable[of 81] filled_load filled81(3) g[of 0] c by blast
qed

text \<open>
  C10. A resize entered from a reachable table whose load factor exceeds the threshold
  returns with one level of nesting, that is with every re-insertion run by a
  \<^verbatim>\<open>hash_insert\<close> that is not allowed to resize, and the capacity is exactly doubled. The
  resize is the re-insertion of the old nodes, in order, into a fresh table of twice the
  capacity, and after each prefix of them the load factor of the new table does not
  exceed the threshold.
\<close>

theorem resize_no_nesting:
  assumes "reachable h" and "load_exceeds h"
  shows "\<exists>h'. hash_resize (Suc 0) h = Some h' \<and>
           (\<forall>d. hash_resize (Suc d) h = Some h') \<and>
           capacity h' = capacity h * 2 \<and>
           unat (capacity h') = 2 * unat (capacity h) \<and>
           hash_resize (Suc 0) h
             = rehash_chain 0 (hash_table_init h (capacity h * 2)) (nodes h) \<and>
           (\<forall>n. \<exists>g. rehash_chain 0 (hash_table_init h (capacity h * 2)) (take n (nodes h)) = Some g
                  \<and> \<not> load_exceeds g)"
proof -
  have i: "table_inv h" using assms(1) by (rule reachable_inv)
  from hash_resize_ok[OF i assms(2)] obtain h' where
    h': "\<And>d. hash_resize (Suc d) h = Some h'" "capacity h' = capacity h * 2"
        "unat (capacity h') = 2 * unat (capacity h)" by blast
  have c30: "unat (capacity h) < 2 ^ 30" using no_load_at_max[OF i] assms(2) by blast
  have pre: "\<exists>g. rehash_chain 0 (hash_table_init h (capacity h * 2)) (take n (nodes h)) = Some g
      \<and> \<not> load_exceeds g" for n
    using rehash_prefix[OF i assms(2), of n] by blast
  have "hash_resize (Suc 0) h = rehash_chain 0 (hash_table_init h (capacity h * 2)) (nodes h)"
    using i c30 by (rule hash_resize_unfold)
  then show ?thesis using h' pre by blast
qed

theorem resize_no_nesting_witness:
  "reachable (filled 81) \<and> load_exceeds (filled 81) \<and> capacity (filled 81) = 16 \<and>
   (\<exists>h'. hash_resize (Suc 0) (filled 81) = Some h' \<and> capacity h' = 32)"
proof -
  from resize_no_nesting[OF filled_reachable[of 81] filled_load] obtain h' where
    h': "hash_resize (Suc 0) (filled 81) = Some h'" "capacity h' = capacity (filled 81) * 2" by blast
  have "capacity h' = 32" using h'(2) by (simp add: filled_capacity[of 81])
  then show ?thesis using filled_reachable[of 81] filled_load filled_capacity[of 81] h'(1) by blast
qed

end
